theory Spec2Isabelle
  imports Main "HOL-Library.AList"
begin

section \<open>Data model of the container (src/src/container.ts)\<close>

text \<open>
  A class constructor (\<^verbatim>\<open>Constructable\<close>). Two constructors are the same key of a
  \<^verbatim>\<open>Map\<close> when they are the same object: the first field is that identity. The
  second is what \<^verbatim>\<open>type.name\<close> reports.
\<close>

datatype ty = Class nat string

fun name :: "ty \<Rightarrow> string" where
  "name (Class i nm) = nm"

type_synonym addr = nat

text \<open>\<^verbatim>\<open>string | symbol\<close>, the key of an injected property.\<close>

datatype pkey = Str string | Sym nat

text \<open>\<^verbatim>\<open>interface Metadata { instance?: T }\<close>.\<close>

record metadata =
  instance_slot :: "addr option"

text \<open>
  One entry of the array stored in \<^verbatim>\<open>injections\<close>. The dependency is \<open>None\<close> when
  the decorator was handed \<^verbatim>\<open>undefined\<close> (a circular import).
\<close>

record injection =
  key :: pkey
  dependency :: "ty option"

text \<open>An object: the class it was made for and its own properties.\<close>

record obj =
  cls :: ty
  props :: "pkey \<rightharpoonup> addr"

datatype error = Error string

text \<open>
  What \<^verbatim>\<open>new type()\<close> does is the code of the class, which is not part of the
  container: it is a parameter. A constructor works on the store of objects; it returns
  a reference (\<open>Inr\<close>), to an object it has made or to one that existed, or throws
  (\<open>Inl\<close>), with the store it leaves, or it does not return (\<open>None\<close>). A constructor that
  calls the container itself is not covered.
\<close>

type_synonym constructor = "obj list \<Rightarrow> ((error + addr) \<times> obj list) option"

text \<open>
  The two module-level maps, the \<^verbatim>\<open>resolving\<close> set of the container, and what the
  program holds besides: the store of objects (an object reference is its index in the
  store), the constructor of each class, and for each class \<open>c\<close> the constructor that
  \<^verbatim>\<open>Object.getPrototypeOf(c.prototype)?.constructor\<close> yields when it is not \<^verbatim>\<open>Object\<close>,
  \<open>None\<close> when it is \<^verbatim>\<open>Object\<close> or \<^verbatim>\<open>undefined\<close>. The last is a property a program can
  assign, so it need not lead to \<^verbatim>\<open>Object\<close>.
\<close>

record state =
  registry :: "(ty \<times> metadata) list"
  injections :: "(ty \<times> injection list) list"
  resolving :: "ty set"
  heap :: "obj list"
  construct :: "ty \<Rightarrow> constructor"
  proto_constructor :: "ty \<Rightarrow> ty option"

text \<open>The constructor of a class that declares none: a new object without properties.\<close>

definition plain :: "ty \<Rightarrow> constructor" where
  "plain t h = Some (Inr (length h), h @ [\<lparr>cls = t, props = Map.empty\<rparr>])"

definition init :: state where
  "init = \<lparr>registry = [], injections = [], resolving = {}, heap = [],
           construct = plain, proto_constructor = (\<lambda>c. None)\<rparr>"

text \<open>\<^verbatim>\<open>class c extends p\<close>, and a class with a constructor of its own.\<close>

definition class_extends :: "ty \<Rightarrow> ty \<Rightarrow> state \<Rightarrow> state" where
  "class_extends c p s = s\<lparr>proto_constructor := (proto_constructor s)(c := Some p)\<rparr>"

definition with_constructor :: "ty \<Rightarrow> constructor \<Rightarrow> state \<Rightarrow> state" where
  "with_constructor c f s = s\<lparr>construct := (construct s)(c := f)\<rparr>"

section \<open>Decorators\<close>

definition Injectable :: "ty \<Rightarrow> state \<Rightarrow> state" where
  "Injectable target s =
     (if map_of (registry s) target = None
      then s\<lparr>registry := registry s @ [(target, \<lparr>instance_slot = None\<rparr>)]\<rparr>
      else s)"

definition Inject :: "ty option \<Rightarrow> ty \<Rightarrow> pkey \<Rightarrow> state \<Rightarrow> state" where
  "Inject dep constructor propertyKey s =
     (let inj = (if map_of (injections s) constructor = None
                 then injections s @ [(constructor, [])]
                 else injections s)
      in s\<lparr>injections :=
            AList.map_entry constructor
              (\<lambda>l. l @ [\<lparr>key = propertyKey, dependency = dep\<rparr>]) inj\<rparr>)"

section \<open>Resolution\<close>

definition instance_of :: "state \<Rightarrow> ty \<Rightarrow> addr option" where
  "instance_of s t = (case map_of (registry s) t of None \<Rightarrow> None | Some meta \<Rightarrow> instance_slot meta)"

definition undefined_msg :: string where
  "undefined_msg = ''[DI] Cannot resolve dependency: type is undefined. Possible circular import or missing dependency.''"

definition unregistered_msg :: "ty \<Rightarrow> string" where
  "unregistered_msg t = ''[DI] '' @ name t @ '' is not registered. Use @Injectable''"

definition circular_msg :: "ty \<Rightarrow> string" where
  "circular_msg t = ''[DI] Circular dependency detected while resolving '' @ name t"

text \<open>\<^verbatim>\<open>new type()\<close>: the constructor of the class, run on the store.\<close>

definition new :: "ty \<Rightarrow> state \<Rightarrow> ((error + addr) \<times> state) option" where
  "new t s =
     (case construct s t (heap s) of None \<Rightarrow> None | Some (r, h) \<Rightarrow> Some (r, s\<lparr>heap := h\<rparr>))"

text \<open>
  \<^verbatim>\<open>Object.defineProperty(instance, key, { value, writable: true, configurable: true })\<close>,
  on an ordinary object: one that is extensible and whose properties are configurable, so
  that the definition does not throw.
\<close>

definition defineProperty :: "addr \<Rightarrow> pkey \<Rightarrow> addr \<Rightarrow> state \<Rightarrow> state" where
  "defineProperty a k v s =
     s\<lparr>heap := (heap s)[a := (heap s ! a)\<lparr>props := (props (heap s ! a))(k \<mapsto> v)\<rparr>]\<rparr>"

text \<open>\<^verbatim>\<open>meta.instance = instance\<close>, on the metadata object that the registry holds for \<open>t\<close>.\<close>

definition cache :: "ty \<Rightarrow> addr \<Rightarrow> state \<Rightarrow> state" where
  "cache t a s = s\<lparr>registry := AList.map_entry t (\<lambda>m. m\<lparr>instance_slot := Some a\<rparr>) (registry s)\<rparr>"

text \<open>
  \<^verbatim>\<open>DIContainer.get\<close>, with its two loops: \<open>walk\<close> is the \<^verbatim>\<open>while (current)\<close> loop over
  the prototype chain and \<open>inject\<close> the \<^verbatim>\<open>for ... of currentInjections\<close> loop. A throw
  is \<open>Inl\<close>; the constructor runs inside the \<^verbatim>\<open>try\<close>, so that its exception passes through
  the \<^verbatim>\<open>finally\<close> as well. The first argument of \<open>get\<close> bounds the depth of nested calls
  of \<open>get\<close> and, with one more, the number of rounds of each \<^verbatim>\<open>while\<close> loop (the first
  argument of \<open>walk\<close>); \<open>None\<close> is a run that does not return within these bounds, because
  it needs more or because a constructor or a loop never returns.
\<close>

fun get :: "nat \<Rightarrow> ty option \<Rightarrow> state \<Rightarrow> ((error + addr) \<times> state) option"
  and inject :: "nat \<Rightarrow> addr \<Rightarrow> injection list \<Rightarrow> state \<Rightarrow> ((error + unit) \<times> state) option"
  and walk :: "nat \<Rightarrow> nat \<Rightarrow> addr \<Rightarrow> ty option \<Rightarrow> state \<Rightarrow> ((error + unit) \<times> state) option"
where
  "get 0 t s = None"
| "get (Suc n) None s = Some (Inl (Error undefined_msg), s)"
| "get (Suc n) (Some t) s =
     (case map_of (registry s) t of
        None \<Rightarrow> Some (Inl (Error (unregistered_msg t)), s)
      | Some meta \<Rightarrow>
          (case instance_slot meta of
             Some a \<Rightarrow> Some (Inr a, s)
           | None \<Rightarrow>
               if t \<in> resolving s then Some (Inl (Error (circular_msg t)), s)
               else
                 (case new t (s\<lparr>resolving := insert t (resolving s)\<rparr>) of
                    None \<Rightarrow> None
                  | Some (Inl e, s1) \<Rightarrow>
                      Some (Inl e, s1\<lparr>resolving := resolving s1 - {t}\<rparr>)
                  | Some (Inr a, s1) \<Rightarrow>
                      (case walk (Suc n) n a (Some t) s1 of
                         None \<Rightarrow> None
                       | Some (Inl e, s2) \<Rightarrow>
                           Some (Inl e, s2\<lparr>resolving := resolving s2 - {t}\<rparr>)
                       | Some (Inr u, s2) \<Rightarrow>
                           Some (Inr a, (cache t a s2)\<lparr>resolving := resolving (cache t a s2) - {t}\<rparr>)))))"
| "inject n a [] s = Some (Inr (), s)"
| "inject n a (r # rs) s =
     (case get n (dependency r) s of
        None \<Rightarrow> None
      | Some (Inl e, s1) \<Rightarrow> Some (Inl e, s1)
      | Some (Inr v, s1) \<Rightarrow> inject n a rs (defineProperty a (key r) v s1))"
| "walk k n a None s = Some (Inr (), s)"
| "walk 0 n a (Some c) s = None"
| "walk (Suc k) n a (Some c) s =
     (case inject n a (case map_of (injections s) c of None \<Rightarrow> [] | Some l \<Rightarrow> l) s of
        None \<Rightarrow> None
      | Some (Inl e, s1) \<Rightarrow> Some (Inl e, s1)
      | Some (Inr u, s1) \<Rightarrow> walk k n a (proto_constructor s1 c) s1)"

text \<open>\<^verbatim>\<open>DIContainer.reset\<close>: \<^verbatim>\<open>delete meta.instance\<close> for every value of the registry.\<close>

definition reset :: "state \<Rightarrow> state" where
  "reset s = s\<lparr>registry := map (\<lambda>(t, meta). (t, meta\<lparr>instance_slot := None\<rparr>)) (registry s)\<rparr>"

section \<open>Classes and container states of the test suite (src/src/__tests__)\<close>

definition TestA :: ty where "TestA = Class 0 ''TestA''"
definition TestB :: ty where "TestB = Class 1 ''TestB''"
definition UnDecoratedService :: ty where "UnDecoratedService = Class 2 ''UnDecoratedService''"
definition A :: ty where "A = Class 3 ''A''"
definition B :: ty where "B = Class 4 ''B''"
definition Logger :: ty where "Logger = Class 5 ''Logger''"
definition BaseController :: ty where "BaseController = Class 6 ''BaseController''"
definition MyController :: ty where "MyController = Class 7 ''MyController''"
definition Foo :: ty where "Foo = Class 8 ''Foo''"
definition Bar :: ty where "Bar = Class 9 ''Bar''"
definition Consumer :: ty where "Consumer = Class 10 ''Consumer''"

text \<open>\<^verbatim>\<open>TestA\<close> and \<^verbatim>\<open>TestB\<close> of index.test.ts, after their decorators have run.\<close>

definition test_state :: state where
  "test_state =
     Injectable TestB (Inject (Some TestA) TestB (Str ''testA'') (Injectable TestA init))"

text \<open>
  The fixtures dependency-a.ts and dependency-b.ts. In \<open>cycle_state\<close> both classes exist
  when the decorators run; in \<open>fixture_state\<close> the import of \<^verbatim>\<open>A\<close> in dependency-b.ts is
  still \<^verbatim>\<open>undefined\<close> when \<^verbatim>\<open>@Inject(A)\<close> runs, as in the test run.
\<close>

definition cycle_state :: state where
  "cycle_state =
     Injectable A (Inject (Some B) A (Str ''b'')
       (Injectable B (Inject (Some A) B (Str ''a'') init)))"

definition fixture_state :: state where
  "fixture_state =
     Injectable A (Inject (Some B) A (Str ''b'')
       (Injectable B (Inject None B (Str ''a'') init)))"

text \<open>\<^verbatim>\<open>Logger\<close>, \<^verbatim>\<open>BaseController\<close> and \<^verbatim>\<open>MyController\<close> of index.test.ts.\<close>

definition controller_state :: state where
  "controller_state =
     Injectable MyController
       (Inject (Some Logger) BaseController (Str ''logger'')
         (Injectable Logger (class_extends MyController BaseController init)))"

text \<open>The state that the run of \<open>get\<close> on \<^verbatim>\<open>TestB\<close> in \<open>test_state\<close> ends in.\<close>

definition resolved_state :: state where
  "resolved_state =
     test_state
       \<lparr>registry := [(TestA, \<lparr>instance_slot = Some 1\<rparr>), (TestB, \<lparr>instance_slot = Some 0\<rparr>)],
        heap := [\<lparr>cls = TestB, props = [Str ''testA'' \<mapsto> 1]\<rparr>,
                 \<lparr>cls = TestA, props = Map.empty\<rparr>]\<rparr>"

text \<open>The state that the run of \<open>get\<close> on \<^verbatim>\<open>TestA\<close> in \<open>test_state\<close> ends in.\<close>

definition testA_resolved :: state where
  "testA_resolved =
     test_state
       \<lparr>registry := [(TestA, \<lparr>instance_slot = Some 0\<rparr>), (TestB, \<lparr>instance_slot = None\<rparr>)],
        heap := [\<lparr>cls = TestA, props = Map.empty\<rparr>]\<rparr>"

text \<open>A state in which \<^verbatim>\<open>TestA\<close> has its instance and is in the resolving set as well.\<close>

definition reentered_state :: state where
  "reentered_state =
     init\<lparr>registry := [(TestA, \<lparr>instance_slot = Some 0\<rparr>)],
          resolving := {TestA}, heap := [\<lparr>cls = TestA, props = Map.empty\<rparr>]\<rparr>"

text \<open>
  The state of \<open>cycle_state\<close> in which \<open>get\<close> is entered for \<^verbatim>\<open>A\<close> the second time:
  both objects exist and both classes are being resolved.
\<close>

definition cycle_reentry_state :: state where
  "cycle_reentry_state =
     cycle_state\<lparr>resolving := {A, B},
                 heap := [\<lparr>cls = A, props = Map.empty\<rparr>, \<lparr>cls = B, props = Map.empty\<rparr>]\<rparr>"

text \<open>The state that the run of \<open>get\<close> on \<^verbatim>\<open>MyController\<close> in \<open>controller_state\<close> ends in.\<close>

definition controller_resolved :: state where
  "controller_resolved =
     controller_state
       \<lparr>registry := [(Logger, \<lparr>instance_slot = Some 1\<rparr>), (MyController, \<lparr>instance_slot = Some 0\<rparr>)],
        heap := [\<lparr>cls = MyController, props = [Str ''logger'' \<mapsto> 1]\<rparr>,
                 \<lparr>cls = Logger, props = Map.empty\<rparr>]\<rparr>"

text \<open>
  \<^verbatim>\<open>Consumer\<close> of index.test.ts when \<^verbatim>\<open>Bar\<close> has no \<^verbatim>\<open>@Injectable()\<close>; \<open>partial_entered\<close> is
  the state in which the run of \<open>get\<close> on \<^verbatim>\<open>Consumer\<close> calls \<open>get\<close> on \<^verbatim>\<open>Foo\<close>, and
  \<open>partial_failed\<close> the state that run ends in.
\<close>

definition partial_state :: state where
  "partial_state =
     Injectable Consumer
       (Inject (Some Bar) Consumer (Str ''bar'')
         (Inject (Some Foo) Consumer (Str ''foo'') (Injectable Foo init)))"

definition partial_entered :: state where
  "partial_entered =
     partial_state\<lparr>resolving := {Consumer}, heap := [\<lparr>cls = Consumer, props = Map.empty\<rparr>]\<rparr>"

definition partial_failed :: state where
  "partial_failed =
     partial_state
       \<lparr>registry := [(Foo, \<lparr>instance_slot = Some 1\<rparr>), (Consumer, \<lparr>instance_slot = None\<rparr>)],
        heap := [\<lparr>cls = Consumer, props = [Str ''foo'' \<mapsto> 1]\<rparr>,
                 \<lparr>cls = Foo, props = Map.empty\<rparr>]\<rparr>"

section \<open>Classes whose constructor or prototype is not the plain one\<close>

text \<open>
  \<^verbatim>\<open>@Injectable() class Boom { constructor() { throw new Error("boom") } }\<close>.
\<close>

definition Boom :: ty where "Boom = Class 11 ''Boom''"

definition boom_state :: state where
  "boom_state =
     Injectable Boom (with_constructor Boom (\<lambda>h. Some (Inl (Error ''boom''), h)) init)"

text \<open>
  \<^verbatim>\<open>let shared; @Injectable() class Single { constructor() { if (shared) return shared; shared = this } }\<close>:
  the object that the first construction makes is the first of the store, and every
  later construction returns it. \<open>single_resolved\<close> is the state that the run of \<open>get\<close>
  on \<^verbatim>\<open>Single\<close> ends in.
\<close>

definition Single :: ty where "Single = Class 12 ''Single''"

definition single_constructor :: constructor where
  "single_constructor h =
     Some (Inr 0, if h = [] then [\<lparr>cls = Single, props = Map.empty\<rparr>] else h)"

definition single_state :: state where
  "single_state = Injectable Single (with_constructor Single single_constructor init)"

definition single_resolved :: state where
  "single_resolved =
     single_state\<lparr>registry := [(Single, \<lparr>instance_slot = Some 0\<rparr>)],
                  heap := [\<lparr>cls = Single, props = Map.empty\<rparr>]\<rparr>"

text \<open>
  \<^verbatim>\<open>class P {}; @Injectable() class Loop extends P {}; P.prototype.constructor = Loop\<close>:
  the constructor found above \<^verbatim>\<open>Loop\<close> is \<^verbatim>\<open>Loop\<close> again.
\<close>

definition Loop :: ty where "Loop = Class 13 ''Loop''"

definition loop_state :: state where
  "loop_state = Injectable Loop (class_extends Loop Loop init)"

section \<open>Relations between the states before and after a call\<close>

text \<open>
  What no call of \<open>get\<close> changes: the resolving set, the registered types, the injection
  map, the constructors and prototypes, the slots of the types being resolved and every
  slot that is already filled.
\<close>

definition steady :: "state \<Rightarrow> state \<Rightarrow> bool" where
  "steady s s' \<longleftrightarrow>
     resolving s' = resolving s \<and>
     map fst (registry s') = map fst (registry s) \<and>
     injections s' = injections s \<and>
     construct s' = construct s \<and>
     proto_constructor s' = proto_constructor s \<and>
     (\<forall>u\<in>resolving s. instance_of s' u = instance_of s u) \<and>
     (\<forall>u b. instance_of s u = Some b \<longrightarrow> instance_of s' u = Some b)"

section \<open>Measures, invariants and conditions on the constructors\<close>


text \<open>Every reference held by the registry is an object of the store.\<close>

definition allocated :: "state \<Rightarrow> bool" where
  "allocated s \<longleftrightarrow>
     (\<forall>(t, meta)\<in>set (registry s). \<forall>a. instance_slot meta = Some a \<longrightarrow> a < length (heap s))"



text \<open>
  No constructor removes an object from the store, and the reference a constructor
  returns is an object of the store.
\<close>

definition store_kept :: "state \<Rightarrow> bool" where
  "store_kept s \<longleftrightarrow>
     (\<forall>c h r h'. construct s c h = Some (r, h') \<longrightarrow>
        length h \<le> length h' \<and> (\<forall>a. r = Inr a \<longrightarrow> a < length h'))"

text \<open>The object that the constructor of \<open>t\<close> returns did not exist before.\<close>

definition fresh :: "ty \<Rightarrow> state \<Rightarrow> bool" where
  "fresh t s \<longleftrightarrow> (\<forall>h a h'. construct s t h = Some (Inr a, h') \<longrightarrow> length h \<le> a)"

text \<open>
  Every constructor leaves the objects of the store as they are, adds objects at its
  end and returns one of those it has added.
\<close>

definition allocating :: "state \<Rightarrow> bool" where
  "allocating s \<longleftrightarrow>
     (\<forall>c h r h'. construct s c h = Some (r, h') \<longrightarrow>
        length h \<le> length h' \<and> take (length h) h' = h
        \<and> (\<forall>a. r = Inr a \<longrightarrow> length h \<le> a \<and> a < length h'))"

section \<open>The records of a type and the calls of a run\<close>

text \<open>
  The classes that the first \<open>k\<close> rounds of the \<^verbatim>\<open>while (current)\<close> loop visit from \<open>c\<close>
  on, in its order, and whether the loop ends within \<open>k\<close> rounds.
\<close>

fun chain :: "nat \<Rightarrow> (ty \<Rightarrow> ty option) \<Rightarrow> ty option \<Rightarrow> ty list" where
  "chain k P None = []"
| "chain 0 P (Some c) = []"
| "chain (Suc k) P (Some c) = c # chain k P (P c)"

fun ends :: "nat \<Rightarrow> (ty \<Rightarrow> ty option) \<Rightarrow> ty option \<Rightarrow> bool" where
  "ends k P None = True"
| "ends 0 P (Some c) = False"
| "ends (Suc k) P (Some c) = ends k P (P c)"


text \<open>The records that \<^verbatim>\<open>injections.get(c)\<close> holds, none when it is \<^verbatim>\<open>undefined\<close>.\<close>

definition direct :: "(ty \<times> injection list) list \<Rightarrow> ty \<Rightarrow> injection list" where
  "direct im c = (case map_of im c of None \<Rightarrow> [] | Some l \<Rightarrow> l)"

text \<open>
  The records of a type and of its ancestors, as the specification orders them: those
  declared on the type itself first, then those of each ancestor on the way up, each
  group in its declaration order; of the first \<open>k\<close> classes of the chain.
\<close>

definition all_records :: "nat \<Rightarrow> state \<Rightarrow> ty \<Rightarrow> injection list" where
  "all_records k s t =
     concat (map (direct (injections s)) (chain k (proto_constructor s) (Some t)))"

text \<open>
  \<open>calls n t s m d sd\<close>: the run of \<open>get n t s\<close> makes the call \<open>get m d sd\<close>, itself or
  at any depth below. A call of \<open>get\<close> on a registered type without an instance that is
  not being resolved, once its constructor has returned, makes, for each record \<open>r\<close> of
  the type and its ancestors before which the injection of the earlier records \<open>pre\<close> has
  returned, the call of \<open>get\<close> on the dependency of \<open>r\<close> in the state that injection has
  left (lemma \<open>frame_run\<close> below derives this from the definition of \<open>get\<close>).
\<close>

inductive calls :: "nat \<Rightarrow> ty option \<Rightarrow> state \<Rightarrow> nat \<Rightarrow> ty option \<Rightarrow> state \<Rightarrow> bool" where
  self: "calls n t s n t s"
| nested: "\<lbrakk>map_of (registry s) t \<noteq> None; instance_of s t = None; t \<notin> resolving s;
      new t (s\<lparr>resolving := insert t (resolving s)\<rparr>) = Some (Inr a, s1);
      all_records (Suc n) s t = pre @ r # post;
      inject n a pre s1 = Some (Inr (), s2);
      calls n (dependency r) s2 m d sd\<rbrakk>
     \<Longrightarrow> calls (Suc n) (Some t) s m d sd"

text \<open>
  Where an error comes from: a gate of a call, which changes nothing, or the constructor
  of the type of a call that has passed the gates.
\<close>

definition raised_at :: "error \<Rightarrow> nat \<Rightarrow> ty option \<Rightarrow> state \<Rightarrow> bool" where
  "raised_at e m d sf \<longleftrightarrow>
     (get (Suc m) d sf = Some (Inl e, sf)
        \<and> (d = None \<or> (\<exists>u. d = Some u \<and> (map_of (registry sf) u = None \<or> u \<in> resolving sf))))
     \<or> (\<exists>u h. d = Some u \<and> map_of (registry sf) u \<noteq> None \<and> instance_of sf u = None
           \<and> u \<notin> resolving sf \<and> construct sf u (heap sf) = Some (Inl e, h))"

section \<open>Evaluation of the test states\<close>

lemmas class_defs = TestA_def TestB_def UnDecoratedService_def A_def B_def Logger_def
  BaseController_def MyController_def Foo_def Bar_def Consumer_def Boom_def Single_def Loop_def

lemma test_state_eq:
  "test_state =
     \<lparr>registry = [(TestA, \<lparr>instance_slot = None\<rparr>), (TestB, \<lparr>instance_slot = None\<rparr>)],
      injections = [(TestB, [\<lparr>key = Str ''testA'', dependency = Some TestA\<rparr>])],
      resolving = {}, heap = [], construct = plain, proto_constructor = (\<lambda>c. None)\<rparr>"
  by (simp add: test_state_def Injectable_def Inject_def init_def class_defs)

lemma cycle_state_eq:
  "cycle_state =
     \<lparr>registry = [(B, \<lparr>instance_slot = None\<rparr>), (A, \<lparr>instance_slot = None\<rparr>)],
      injections = [(B, [\<lparr>key = Str ''a'', dependency = Some A\<rparr>]),
                    (A, [\<lparr>key = Str ''b'', dependency = Some B\<rparr>])],
      resolving = {}, heap = [], construct = plain, proto_constructor = (\<lambda>c. None)\<rparr>"
  by (simp add: cycle_state_def Injectable_def Inject_def init_def class_defs)

lemma fixture_state_eq:
  "fixture_state =
     \<lparr>registry = [(B, \<lparr>instance_slot = None\<rparr>), (A, \<lparr>instance_slot = None\<rparr>)],
      injections = [(B, [\<lparr>key = Str ''a'', dependency = None\<rparr>]),
                    (A, [\<lparr>key = Str ''b'', dependency = Some B\<rparr>])],
      resolving = {}, heap = [], construct = plain, proto_constructor = (\<lambda>c. None)\<rparr>"
  by (simp add: fixture_state_def Injectable_def Inject_def init_def class_defs)

lemma controller_state_eq:
  "controller_state =
     \<lparr>registry = [(Logger, \<lparr>instance_slot = None\<rparr>), (MyController, \<lparr>instance_slot = None\<rparr>)],
      injections = [(BaseController, [\<lparr>key = Str ''logger'', dependency = Some Logger\<rparr>])],
      resolving = {}, heap = [], construct = plain,
      proto_constructor = (\<lambda>c. None)(MyController := Some BaseController)\<rparr>"
  by (simp add: controller_state_def Injectable_def Inject_def init_def class_extends_def class_defs)

lemma partial_state_eq:
  "partial_state =
     \<lparr>registry = [(Foo, \<lparr>instance_slot = None\<rparr>), (Consumer, \<lparr>instance_slot = None\<rparr>)],
      injections = [(Consumer, [\<lparr>key = Str ''foo'', dependency = Some Foo\<rparr>,
                                \<lparr>key = Str ''bar'', dependency = Some Bar\<rparr>])],
      resolving = {}, heap = [], construct = plain, proto_constructor = (\<lambda>c. None)\<rparr>"
  by (simp add: partial_state_def Injectable_def Inject_def init_def class_defs)

lemmas run_simps = numeral_2_eq_2 numeral_3_eq_3 class_defs new_def plain_def cache_def
  defineProperty_def undefined_msg_def unregistered_msg_def circular_msg_def

text \<open>The runs of the test suite.\<close>

lemma run_TestB: "get 2 (Some TestB) test_state = Some (Inr 0, resolved_state)"
  by (simp add: resolved_state_def test_state_eq run_simps)

lemma run_TestA: "get 1 (Some TestA) test_state = Some (Inr 0, testA_resolved)"
  by (simp add: test_state_eq testA_resolved_def run_simps)

lemma run_fixture_A:
  "get 3 (Some A) fixture_state =
     Some (Inl (Error ''[DI] Cannot resolve dependency: type is undefined. Possible circular import or missing dependency.''),
       fixture_state\<lparr>heap := [\<lparr>cls = A, props = Map.empty\<rparr>, \<lparr>cls = B, props = Map.empty\<rparr>]\<rparr>)"
  by (simp add: fixture_state_eq run_simps)

lemma run_cycle_A:
  "get 3 (Some A) cycle_state =
     Some (Inl (Error ''[DI] Circular dependency detected while resolving A''),
       cycle_state\<lparr>heap := [\<lparr>cls = A, props = Map.empty\<rparr>, \<lparr>cls = B, props = Map.empty\<rparr>]\<rparr>)"
  by (simp add: cycle_state_eq run_simps)

lemma run_MyController:
  "get 2 (Some MyController) controller_state = Some (Inr 0, controller_resolved)"
  by (simp add: controller_state_eq controller_resolved_def run_simps)

lemma run_partial:
  "get 2 (Some Consumer) partial_state =
     Some (Inl (Error ''[DI] Bar is not registered. Use @Injectable''), partial_failed)"
  by (simp add: partial_state_eq partial_failed_def run_simps)

section \<open>What a call leaves unchanged\<close>

lemma steady_refl: "steady s s"
  by (simp add: steady_def)

lemma steady_trans: "steady s s1 \<Longrightarrow> steady s1 s2 \<Longrightarrow> steady s s2"
  by (auto simp: steady_def)

lemma instance_of_defineProperty: "instance_of (defineProperty a k v s) u = instance_of s u"
  by (simp add: instance_of_def defineProperty_def)

lemma steady_defineProperty: "steady s (defineProperty a k v s)"
  by (simp add: steady_def instance_of_defineProperty) (simp add: defineProperty_def)

lemma map_fst_map_entry: "map fst (AList.map_entry k f xs) = map fst xs"
  by (induction xs) auto

lemma instance_of_cache:
  "instance_of (cache t a s) u =
     (if u = t \<and> map_of (registry s) t \<noteq> None then Some a else instance_of s u)"
  by (auto simp: instance_of_def cache_def map_of_map_entry split: option.splits)

lemma instance_of_resolving_upd: "instance_of (s\<lparr>resolving := R\<rparr>) u = instance_of s u"
  by (simp add: instance_of_def)

lemma instance_of_heap_upd: "instance_of (s\<lparr>heap := h\<rparr>) u = instance_of s u"
  by (simp add: instance_of_def)

text \<open>What \<^verbatim>\<open>new type()\<close> changes is the store.\<close>

lemma new_state:
  assumes "new t s = Some (r, s1)"
  shows "\<exists>h. construct s t (heap s) = Some (r, h) \<and> s1 = s\<lparr>heap := h\<rparr>"
  using assms by (auto simp: new_def split: option.splits)

lemma new_fields:
  assumes "new t s = Some (r, s1)"
  shows "resolving s1 = resolving s" "registry s1 = registry s" "injections s1 = injections s"
    "construct s1 = construct s" "proto_constructor s1 = proto_constructor s"
    "instance_of s1 u = instance_of s u"
  using new_state[OF assms] by (auto simp: instance_of_heap_upd)

lemma steady_enter_exit:
  assumes t: "t \<notin> resolving s" and n: "instance_of s t = None"
    and new: "new t (s\<lparr>resolving := insert t (resolving s)\<rparr>) = Some (r, s1)"
    and st: "steady s1 s2"
  shows "steady s (s2\<lparr>resolving := resolving s2 - {t}\<rparr>)"
    and "steady s ((cache t a s2)\<lparr>resolving := resolving (cache t a s2) - {t}\<rparr>)"
proof -
  note f1 = new_fields[OF new]
  have i1: "instance_of s1 u = instance_of s u" for u
    using f1(6) [of u] by (simp add: instance_of_resolving_upd)
  have r1: "resolving s1 = insert t (resolving s)" "registry s1 = registry s"
    "injections s1 = injections s" "construct s1 = construct s"
    "proto_constructor s1 = proto_constructor s"
    using f1(1-5) by simp_all
  from st have f: "resolving s2 = insert t (resolving s)"
    "map fst (registry s2) = map fst (registry s)"
    "injections s2 = injections s" "construct s2 = construct s"
    "proto_constructor s2 = proto_constructor s"
    "\<And>u. u \<in> insert t (resolving s) \<Longrightarrow> instance_of s2 u = instance_of s u"
    "\<And>u b. instance_of s u = Some b \<Longrightarrow> instance_of s2 u = Some b"
    unfolding steady_def by (auto simp: r1 i1)
  show "steady s (s2\<lparr>resolving := resolving s2 - {t}\<rparr>)"
    unfolding steady_def using t f
    by (auto simp: instance_of_resolving_upd)
  have ne1: "u \<noteq> t" if "u \<in> resolving s" for u using that t by auto
  have ne2: "u \<noteq> t" if "instance_of s u = Some b" for u b using that n by auto
  have c: "resolving (cache t a s2) = resolving s2"
    "injections (cache t a s2) = injections s2" "construct (cache t a s2) = construct s2"
    "proto_constructor (cache t a s2) = proto_constructor s2"
    "map fst (registry (cache t a s2)) = map fst (registry s2)"
    by (simp_all add: cache_def map_fst_map_entry)
  show "steady s ((cache t a s2)\<lparr>resolving := resolving (cache t a s2) - {t}\<rparr>)"
    unfolding steady_def using t f ne1 ne2
    by (auto simp: instance_of_resolving_upd instance_of_cache c)
qed

lemma steady_all:
  "get n t s = Some (r, s') \<Longrightarrow> steady s s'"
  "inject n a rs s = Some (q, s') \<Longrightarrow> steady s s'"
  "walk k n a c s = Some (q, s') \<Longrightarrow> steady s s'"
proof (induction n t s and n a rs s and k n a c s arbitrary: r s' and q s' and q s'
    rule: get_inject_walk.induct)
  case (1 t s)
  then show ?case by simp
next
  case (2 n s)
  then show ?case by (simp add: steady_refl)
next
  case (3 n t s)
  show ?case
  proof (cases "map_of (registry s) t")
    case None
    with 3(2) show ?thesis by (simp add: steady_refl)
  next
    case (Some meta)
    show ?thesis
    proof (cases "instance_slot meta")
      case (Some b)
      with 3(2) \<open>map_of (registry s) t = Some meta\<close> show ?thesis by (auto simp add: steady_refl)
    next
      case None
      note meta = \<open>map_of (registry s) t = Some meta\<close> None
      show ?thesis
      proof (cases "t \<in> resolving s")
        case True
        with 3(2) meta show ?thesis by (auto simp add: steady_refl)
      next
        case False
        have inone: "instance_of s t = None" using meta by (simp add: instance_of_def)
        from 3(2) meta False obtain x s1 where
          new: "new t (s\<lparr>resolving := insert t (resolving s)\<rparr>) = Some (x, s1)"
          by (auto split: option.splits)
        show ?thesis
        proof (cases x)
          case (Inl e)
          from steady_enter_exit(1)[OF False inone new steady_refl]
          have "steady s (s1\<lparr>resolving := resolving s1 - {t}\<rparr>)" .
          with 3(2) meta False new Inl show ?thesis by simp
        next
          case (Inr a)
          with 3(2) meta False new obtain q s2 where
            w: "walk (Suc n) n a (Some t) s1 = Some (q, s2)"
            by (auto split: option.splits)
          have st: "steady s1 s2"
            using 3(1)[OF meta(1) meta(2) False new[unfolded Inr] refl refl w] .
          from steady_enter_exit[OF False inone new st]
          have A: "steady s (s2\<lparr>resolving := resolving s2 - {t}\<rparr>)"
            and B: "steady s ((cache t a s2)\<lparr>resolving := resolving (cache t a s2) - {t}\<rparr>)"
            by simp_all
          from 3(2) meta False new Inr w A B show ?thesis
            by (cases q) auto
        qed
      qed
    qed
  qed
next
  case (4 n a s)
  then show ?case by (simp add: steady_refl)
next
  case (5 n a r rs s)
  from 5(3) obtain x s1 where g: "get n (dependency r) s = Some (x, s1)"
    by (auto split: option.splits)
  have st1: "steady s s1" using 5(1)[OF g] .
  show ?case
  proof (cases x)
    case (Inl e)
    with 5(3) g st1 show ?thesis by simp
  next
    case (Inr v)
    with 5(3) g have i: "inject n a rs (defineProperty a (key r) v s1) = Some (q, s')" by simp
    have "steady (defineProperty a (key r) v s1) s'"
      using 5(2)[OF g refl Inr i] .
    with st1 steady_defineProperty show ?thesis by (blast intro: steady_trans)
  qed
next
  case (6 k n a s)
  then show ?case by (simp add: steady_refl)
next
  case (7 n a c s)
  then show ?case by simp
next
  case (8 k n a c s)
  let ?l = "case map_of (injections s) c of None \<Rightarrow> [] | Some l \<Rightarrow> l"
  from 8(3) obtain x s1 where g: "inject n a ?l s = Some (x, s1)"
    by (auto split: option.splits)
  have st1: "steady s s1" using 8(1)[OF g] .
  show ?case
  proof (cases x)
    case (Inl e)
    with 8(3) g st1 show ?thesis by simp
  next
    case (Inr v)
    with 8(3) g have i: "walk k n a (proto_constructor s1 c) s1 = Some (q, s')" by simp
    have "steady s1 s'" using 8(2)[OF g refl Inr i] .
    with st1 show ?thesis by (blast intro: steady_trans)
  qed
qed

section \<open>Results of a call\<close>

lemma registered_steady:
  "steady s s' \<Longrightarrow> (map_of (registry s') t = None) = (map_of (registry s) t = None)"
proof -
  assume "steady s s'"
  then have "map fst (registry s') = map fst (registry s)" by (simp add: steady_def)
  then have "fst ` set (registry s') = fst ` set (registry s)"
    by (metis list.set_map)
  then show ?thesis by (simp add: map_of_eq_None_iff)
qed

text \<open>The run of \<open>get\<close> on a type that passes the three gates and the cache.\<close>

lemma get_enter:
  assumes "map_of (registry s) t \<noteq> None" and "instance_of s t = None" and "t \<notin> resolving s"
  shows "get (Suc n) (Some t) s =
    (case new t (s\<lparr>resolving := insert t (resolving s)\<rparr>) of
       None \<Rightarrow> None
     | Some (Inl e, s1) \<Rightarrow> Some (Inl e, s1\<lparr>resolving := resolving s1 - {t}\<rparr>)
     | Some (Inr a, s1) \<Rightarrow>
         (case walk (Suc n) n a (Some t) s1 of
            None \<Rightarrow> None
          | Some (Inl e, s2) \<Rightarrow> Some (Inl e, s2\<lparr>resolving := resolving s2 - {t}\<rparr>)
          | Some (Inr u, s2) \<Rightarrow>
              Some (Inr a, (cache t a s2)\<lparr>resolving := resolving (cache t a s2) - {t}\<rparr>)))"
  using assms by (auto simp: instance_of_def split: option.splits)

lemma get_gate:
  assumes "\<not> (map_of (registry s) t \<noteq> None \<and> instance_of s t = None \<and> t \<notin> resolving s)"
  shows "get (Suc n) (Some t) s =
    (if map_of (registry s) t = None then Some (Inl (Error (unregistered_msg t)), s)
     else case instance_of s t of Some a \<Rightarrow> Some (Inr a, s)
          | None \<Rightarrow> Some (Inl (Error (circular_msg t)), s))"
  using assms by (auto simp: instance_of_def split: option.splits)

lemma get_returns_cached:
  assumes "get n (Some t) s = Some (Inr a, s')"
  shows "instance_of s' t = Some a"
proof (cases n)
  case 0
  with assms show ?thesis by simp
next
  case (Suc m)
  show ?thesis
  proof (cases "map_of (registry s) t \<noteq> None \<and> instance_of s t = None \<and> t \<notin> resolving s")
    case False
    with assms Suc show ?thesis
      by (auto simp: get_gate simp del: get.simps walk.simps split: option.splits if_splits)
  next
    case True
    then have g: "map_of (registry s) t \<noteq> None" "instance_of s t = None" "t \<notin> resolving s"
      by simp_all
    from assms Suc obtain a1 s1 u s2 where
      new: "new t (s\<lparr>resolving := insert t (resolving s)\<rparr>) = Some (Inr a1, s1)" and
      w: "walk (Suc m) m a1 (Some t) s1 = Some (Inr u, s2)" and
      res: "a = a1" "s' = (cache t a1 s2)\<lparr>resolving := resolving (cache t a1 s2) - {t}\<rparr>"
      by (auto simp: get_enter[OF g] simp del: get.simps walk.simps split: option.splits sum.splits)
    have "registry s1 = registry s" using new_fields(2)[OF new] by simp
    with steady_all(3)[OF w] g(1) have "map_of (registry s2) t \<noteq> None"
      by (simp add: registered_steady)
    then show ?thesis
      by (simp add: res instance_of_resolving_upd instance_of_cache)
  qed
qed



section \<open>Termination and allocation\<close>











lemma store_kept_steady: "steady s s' \<Longrightarrow> store_kept s' = store_kept s"
  by (simp add: store_kept_def steady_def)

lemma allocated_grow:
  "allocated s \<Longrightarrow> registry s' = registry s \<Longrightarrow> length (heap s) \<le> length (heap s') \<Longrightarrow> allocated s'"
  unfolding allocated_def by fastforce

lemma set_map_entry:
  "(k, v) \<in> set (AList.map_entry t f xs) \<Longrightarrow> (k, v) \<in> set xs \<or> (k = t \<and> (\<exists>w. (t, w) \<in> set xs \<and> v = f w))"
  by (induction xs) (auto split: if_splits)

lemma allocated_cache:
  assumes "allocated s" and "a < length (heap s)"
  shows "allocated (cache t a s)"
  unfolding allocated_def
proof (clarify)
  fix k meta b
  assume "(k, meta) \<in> set (registry (cache t a s))" and b: "instance_slot meta = Some b"
  then have "(k, meta) \<in> set (AList.map_entry t (\<lambda>m. m\<lparr>instance_slot := Some a\<rparr>) (registry s))"
    by (simp add: cache_def)
  from set_map_entry[OF this] show "b < length (heap (cache t a s))"
  proof
    assume "(k, meta) \<in> set (registry s)"
    with assms(1) b show ?thesis unfolding allocated_def by (fastforce simp: cache_def)
  next
    assume "k = t \<and> (\<exists>w. (t, w) \<in> set (registry s) \<and> meta = w\<lparr>instance_slot := Some a\<rparr>)"
    with b have "b = a" by auto
    with assms(2) show ?thesis by (simp add: cache_def)
  qed
qed

lemma allocated_all:
  "get n t s = Some (r, s') \<Longrightarrow> store_kept s \<Longrightarrow>
     length (heap s) \<le> length (heap s') \<and> (allocated s \<longrightarrow> allocated s')"
  "inject n a rs s = Some (q, s') \<Longrightarrow> store_kept s \<Longrightarrow>
     length (heap s) \<le> length (heap s') \<and> (allocated s \<longrightarrow> allocated s')"
  "walk k n a c s = Some (q, s') \<Longrightarrow> store_kept s \<Longrightarrow>
     length (heap s) \<le> length (heap s') \<and> (allocated s \<longrightarrow> allocated s')"
proof (induction n t s and n a rs s and k n a c s arbitrary: r s' and q s' and q s'
    rule: get_inject_walk.induct)
  case (3 n t s)
  show ?case
  proof (cases "map_of (registry s) t \<noteq> None \<and> instance_of s t = None \<and> t \<notin> resolving s")
    case False
    with 3(2) show ?thesis
      by (auto simp: get_gate simp del: get.simps walk.simps split: option.splits if_splits)
  next
    case True
    then have g: "map_of (registry s) t \<noteq> None" "instance_of s t = None" "t \<notin> resolving s"
      by simp_all
    then obtain meta where meta: "map_of (registry s) t = Some meta" "instance_slot meta = None"
      by (auto simp: instance_of_def)
    let ?s0 = "s\<lparr>resolving := insert t (resolving s)\<rparr>"
    from 3(2) obtain x s1 where new: "new t ?s0 = Some (x, s1)"
      by (auto simp: get_enter[OF g] simp del: get.simps walk.simps split: option.splits)
    from new_state[OF new] obtain h where
      c: "construct s t (heap s) = Some (x, h)" and s1: "s1 = ?s0\<lparr>heap := h\<rparr>" by auto
    from 3(3) c have h: "length (heap s) \<le> length h" and xa: "\<And>a. x = Inr a \<Longrightarrow> a < length h"
      unfolding store_kept_def by blast+
    have k1: "store_kept s1" using 3(3) s1 by (simp add: store_kept_def)
    have al1: "allocated s1" if "allocated s"
      using that h s1 by (auto intro: allocated_grow)
    show ?thesis
    proof (cases x)
      case (Inl e)
      with 3(2) new have "s' = s1\<lparr>resolving := resolving s1 - {t}\<rparr>"
        by (simp add: get_enter[OF g] del: get.simps walk.simps)
      with h s1 al1 show ?thesis by (auto simp: allocated_def)
    next
      case (Inr a)
      with 3(2) new obtain q s2 where w: "walk (Suc n) n a (Some t) s1 = Some (q, s2)"
        by (auto simp: get_enter[OF g] simp del: get.simps walk.simps split: option.splits)
      from 3(1)[OF meta g(3) new[unfolded Inr] refl refl w k1]
      have l2: "length (heap s1) \<le> length (heap s2)" and al2: "allocated s1 \<Longrightarrow> allocated s2"
        by simp_all
      from xa[OF Inr] l2 s1 have a2: "a < length (heap s2)" by simp
      have A: "allocated ((cache t a s2)\<lparr>resolving := resolving (cache t a s2) - {t}\<rparr>)"
        if "allocated s"
      proof -
        from that have "allocated s2" by (intro al2 al1)
        with a2 have "allocated (cache t a s2)" by (intro allocated_cache)
        then show ?thesis by (simp add: allocated_def)
      qed
      have B: "allocated (s2\<lparr>resolving := resolving s2 - {t}\<rparr>)" if "allocated s"
        using al2[OF al1[OF that]] by (simp add: allocated_def)
      have L: "length (heap s) \<le> length (heap s2)" using h l2 s1 by simp
      from 3(2) new Inr w A B L show ?thesis
        by (cases q) (auto simp: get_enter[OF g] cache_def simp del: get.simps walk.simps)
    qed
  qed
next
  case (5 n a r rs s)
  from 5(3) obtain x s1 where g: "get n (dependency r) s = Some (x, s1)"
    by (auto split: option.splits)
  from 5(1)[OF g 5(4)] have l1: "length (heap s) \<le> length (heap s1)"
    and a1: "allocated s \<Longrightarrow> allocated s1" by simp_all
  show ?case
  proof (cases x)
    case (Inl e)
    with 5(3) g l1 a1 show ?thesis by auto
  next
    case (Inr v)
    let ?s2 = "defineProperty a (key r) v s1"
    from Inr 5(3) g have i: "inject n a rs ?s2 = Some (q, s')" by simp
    have k2: "store_kept ?s2"
      using 5(4) store_kept_steady[OF steady_all(1)[OF g]]
      by (simp add: store_kept_def defineProperty_def)
    from 5(2)[OF g refl Inr i k2]
    have l2: "length (heap ?s2) \<le> length (heap s')" and a2: "allocated ?s2 \<Longrightarrow> allocated s'"
      by simp_all
    have "allocated ?s2" if "allocated s"
      using a1[OF that] by (simp add: allocated_def defineProperty_def)
    with l1 l2 a2 show ?thesis by (auto simp: defineProperty_def)
  qed
next
  case (8 k n a c s)
  let ?l = "case map_of (injections s) c of None \<Rightarrow> [] | Some l \<Rightarrow> l"
  from 8(3) obtain x s1 where g: "inject n a ?l s = Some (x, s1)"
    by (auto split: option.splits)
  from 8(1)[OF g 8(4)] have l1: "length (heap s) \<le> length (heap s1)"
    and a1: "allocated s \<Longrightarrow> allocated s1" by simp_all
  show ?case
  proof (cases x)
    case (Inl e)
    with 8(3) g l1 a1 show ?thesis by auto
  next
    case (Inr v)
    with 8(3) g have i: "walk k n a (proto_constructor s1 c) s1 = Some (q, s')" by simp
    have "store_kept s1" using 8(4) store_kept_steady[OF steady_all(2)[OF g]] by simp
    from 8(2)[OF g refl Inr i this] l1 a1 show ?thesis by auto
  qed
qed auto

lemma allocated_instance: "allocated s \<Longrightarrow> instance_of s t = Some a \<Longrightarrow> a < length (heap s)"
  unfolding allocated_def instance_of_def
  by (auto split: option.splits dest!: map_of_SomeD)

lemma allocated_init: "allocated init"
  by (simp add: allocated_def init_def)

lemma allocated_Injectable: "allocated s \<Longrightarrow> allocated (Injectable t s)"
  by (auto simp: allocated_def Injectable_def)

lemma allocated_Inject: "allocated s \<Longrightarrow> allocated (Inject d c k s)"
  by (simp add: allocated_def Inject_def Let_def)

lemma allocated_reset: "allocated (reset s)"
  by (auto simp: allocated_def reset_def)

lemma instance_of_reset: "instance_of (reset s) t = None"
proof -
  have "map_of (map (\<lambda>(t, meta). (t, meta\<lparr>instance_slot := None\<rparr>)) xs) t
      = map_option (\<lambda>meta. meta\<lparr>instance_slot := None\<rparr>) (map_of xs t)" for xs :: "(ty \<times> metadata) list"
    by (induction xs) auto
  then show ?thesis
    by (simp add: instance_of_def reset_def split: option.splits)
qed

text \<open>What a call without a cached instance returns is what the constructor returned.\<close>

lemma get_constructed:
  assumes "get n (Some t) s = Some (Inr b, s')" and "instance_of s t = None"
  shows "\<exists>h. construct s t (heap s) = Some (Inr b, h)"
proof (cases n)
  case 0
  with assms show ?thesis by simp
next
  case (Suc m)
  show ?thesis
  proof (cases "map_of (registry s) t \<noteq> None \<and> instance_of s t = None \<and> t \<notin> resolving s")
    case False
    with assms Suc show ?thesis
      by (auto simp: get_gate simp del: get.simps walk.simps split: option.splits if_splits)
  next
    case True
    then have g: "map_of (registry s) t \<noteq> None" "instance_of s t = None" "t \<notin> resolving s"
      by simp_all
    from assms Suc obtain s1 where
      "new t (s\<lparr>resolving := insert t (resolving s)\<rparr>) = Some (Inr b, s1)"
      by (auto simp: get_enter[OF g] simp del: get.simps walk.simps
          split: option.splits sum.splits)
    from new_state[OF this] show ?thesis by auto
  qed
qed

section \<open>The walk as one injection, and the calls of a run\<close>

lemma inject_append:
  "inject n a (xs @ ys) s =
     (case inject n a xs s of
        None \<Rightarrow> None
      | Some (Inl e, s1) \<Rightarrow> Some (Inl e, s1)
      | Some (Inr u, s1) \<Rightarrow> inject n a ys s1)"
proof (induction xs arbitrary: s)
  case Nil
  show ?case by simp
next
  case (Cons x xs)
  show ?case
  proof (cases "get n (dependency x) s")
    case None
    then show ?thesis by simp
  next
    case (Some y)
    obtain q s1 where y: "y = (q, s1)" by (cases y)
    show ?thesis
    proof (cases q)
      case (Inl e)
      with Some y show ?thesis by simp
    next
      case (Inr v)
      with Some y Cons.IH [of "defineProperty a (key x) v s1"] show ?thesis by simp
    qed
  qed
qed

text \<open>
  The loop over the prototype chain is the injection of the records of the classes it
  visits; it returns when that injection has returned and the chain has ended.
\<close>

lemma walk_flat:
  "walk k n a c s =
     (case inject n a (concat (map (direct (injections s)) (chain k (proto_constructor s) c))) s of
        None \<Rightarrow> None
      | Some (Inl e, s1) \<Rightarrow> Some (Inl e, s1)
      | Some (Inr u, s1) \<Rightarrow> if ends k (proto_constructor s) c then Some (Inr (), s1) else None)"
proof (induction k "proto_constructor s" c arbitrary: s rule: chain.induct)
  case (1 k)
  show ?case by simp
next
  case (2 c)
  show ?case by simp
next
  case (3 k c)
  let ?P = "proto_constructor s"
  show ?case
  proof (cases "inject n a (direct (injections s) c) s")
    case None
    then show ?thesis by (simp add: inject_append) (simp add: direct_def)
  next
    case (Some y)
    obtain q s1 where y: "y = (q, s1)" by (cases y)
    from Some y have st: "steady s s1" by (auto intro: steady_all(2))
    then have ij: "injections s1 = injections s" "proto_constructor s1 = ?P"
      by (simp_all add: steady_def)
    show ?thesis
    proof (cases q)
      case (Inl e)
      with Some y show ?thesis by (simp add: inject_append) (simp add: direct_def)
    next
      case (Inr u)
      have w: "walk (Suc k) n a (Some c) s = walk k n a (?P c) s1"
        using Some y Inr ij by (simp add: direct_def)
      have ih: "walk k n a (?P c) s1 =
        (case inject n a (concat (map (direct (injections s)) (chain k ?P (?P c)))) s1 of
           None \<Rightarrow> None
         | Some (Inl e, s2) \<Rightarrow> Some (Inl e, s2)
         | Some (Inr u, s2) \<Rightarrow> if ends k ?P (?P c) then Some (Inr (), s2) else None)"
        using "3.hyps" [of s1] unfolding ij by simp
      have r: "inject n a (concat (map (direct (injections s)) (chain (Suc k) ?P (Some c)))) s
          = inject n a (concat (map (direct (injections s)) (chain k ?P (?P c)))) s1"
        using Some y Inr by (simp add: inject_append)
      have e: "ends (Suc k) ?P (Some c) = ends k ?P (?P c)" by simp
      show ?thesis unfolding w ih r e ..
    qed
  qed
qed

lemma allocating_store_kept: "allocating s \<Longrightarrow> store_kept s"
  unfolding allocating_def store_kept_def by blast

lemma allocating_steady: "steady s s' \<Longrightarrow> allocating s' = allocating s"
  by (simp add: allocating_def steady_def)

lemma allocating_defineProperty: "allocating (defineProperty a k v s) = allocating s"
  by (simp add: allocating_def defineProperty_def)

text \<open>
  When constructors only add objects, a call of \<open>get\<close> leaves the objects that exist as
  they are, and the loops write to the one object they are given.
\<close>

lemma heap_frame:
  "get n t s = Some (r, s') \<Longrightarrow> allocating s \<Longrightarrow> i < length (heap s) \<Longrightarrow>
     heap s' ! i = heap s ! i"
  "inject n a rs s = Some (q, s') \<Longrightarrow> allocating s \<Longrightarrow> i < length (heap s) \<Longrightarrow> i \<noteq> a \<Longrightarrow>
     heap s' ! i = heap s ! i"
  "walk k n a c s = Some (q, s') \<Longrightarrow> allocating s \<Longrightarrow> i < length (heap s) \<Longrightarrow> i \<noteq> a \<Longrightarrow>
     heap s' ! i = heap s ! i"
proof (induction n t s and n a rs s and k n a c s arbitrary: r s' and q s' and q s'
    rule: get_inject_walk.induct)
  case (3 n t s)
  show ?case
  proof (cases "map_of (registry s) t \<noteq> None \<and> instance_of s t = None \<and> t \<notin> resolving s")
    case False
    with 3(2) show ?thesis
      by (auto simp: get_gate simp del: get.simps walk.simps split: option.splits if_splits)
  next
    case True
    then have g: "map_of (registry s) t \<noteq> None" "instance_of s t = None" "t \<notin> resolving s"
      by simp_all
    then obtain meta where meta: "map_of (registry s) t = Some meta" "instance_slot meta = None"
      by (auto simp: instance_of_def)
    let ?s0 = "s\<lparr>resolving := insert t (resolving s)\<rparr>"
    from 3(2) obtain x s1 where new: "new t ?s0 = Some (x, s1)"
      by (auto simp: get_enter[OF g] simp del: get.simps walk.simps split: option.splits)
    from new_state[OF new] obtain h where
      c: "construct s t (heap s) = Some (x, h)" and s1: "s1 = ?s0\<lparr>heap := h\<rparr>" by auto
    from 3(3) c have h: "length (heap s) \<le> length h" "take (length (heap s)) h = heap s"
      and xa: "\<And>a. x = Inr a \<Longrightarrow> length (heap s) \<le> a"
      unfolding allocating_def by blast+
    from h(2) 3(4) have hi: "h ! i = heap s ! i"
      by (metis nth_take)
    have k1: "allocating s1" using 3(3) s1 by (simp add: allocating_def)
    show ?thesis
    proof (cases x)
      case (Inl e)
      with 3(2) new have "s' = s1\<lparr>resolving := resolving s1 - {t}\<rparr>"
        by (simp add: get_enter[OF g] del: get.simps walk.simps)
      with hi s1 show ?thesis by simp
    next
      case (Inr a)
      with 3(2) new obtain q s2 where w: "walk (Suc n) n a (Some t) s1 = Some (q, s2)"
        by (auto simp: get_enter[OF g] simp del: get.simps walk.simps split: option.splits)
      from xa[OF Inr] 3(4) h s1 have "i < length (heap s1)" "i \<noteq> a" by simp_all
      from 3(1)[OF meta g(3) new[unfolded Inr] refl refl w k1 this]
      have "heap s2 ! i = heap s ! i" using hi s1 by simp
      with 3(2) new Inr w show ?thesis
        by (cases q) (auto simp: get_enter[OF g] cache_def simp del: get.simps walk.simps)
    qed
  qed
next
  case (5 n a r rs s)
  from 5(3) obtain x s1 where g: "get n (dependency r) s = Some (x, s1)"
    by (auto split: option.splits)
  from 5(1)[OF g 5(4,5)] have h1: "heap s1 ! i = heap s ! i" .
  from allocated_all(1)[OF g allocating_store_kept[OF 5(4)]] 5(5)
  have l: "i < length (heap s1)" by simp
  show ?case
  proof (cases x)
    case (Inl e)
    with 5(3) g h1 show ?thesis by auto
  next
    case (Inr v)
    let ?s2 = "defineProperty a (key r) v s1"
    from Inr 5(3) g have i: "inject n a rs ?s2 = Some (q, s')" by simp
    have k2: "allocating ?s2"
      using 5(4) allocating_steady[OF steady_all(1)[OF g]]
      by (simp add: allocating_defineProperty)
    from l have "i < length (heap ?s2)" by (simp add: defineProperty_def)
    from 5(2)[OF g refl Inr i k2 this 5(6)] have "heap s' ! i = heap ?s2 ! i" .
    also have "\<dots> = heap s1 ! i" using 5(6) by (simp add: defineProperty_def)
    finally show ?thesis using h1 by simp
  qed
next
  case (8 k n a c s)
  let ?l = "case map_of (injections s) c of None \<Rightarrow> [] | Some l \<Rightarrow> l"
  from 8(3) obtain x s1 where g: "inject n a ?l s = Some (x, s1)"
    by (auto split: option.splits)
  from 8(1)[OF g 8(4,5,6)] have h1: "heap s1 ! i = heap s ! i" .
  from allocated_all(2)[OF g allocating_store_kept[OF 8(4)]] 8(5)
  have l: "i < length (heap s1)" by simp
  show ?case
  proof (cases x)
    case (Inl e)
    with 8(3) g h1 show ?thesis by auto
  next
    case (Inr v)
    with 8(3) g have w: "walk k n a (proto_constructor s1 c) s1 = Some (q, s')" by simp
    have "allocating s1" using 8(4) allocating_steady[OF steady_all(2)[OF g]] by simp
    from 8(2)[OF g refl Inr w this l 8(6)] h1 show ?thesis by simp
  qed
qed auto

text \<open>The run of \<open>get\<close> on a type that passes the gates, up to one of its records.\<close>

lemma frame_run:
  assumes reg: "map_of (registry s) t \<noteq> None" and un: "instance_of s t = None"
    and nr: "t \<notin> resolving s"
    and new: "new t (s\<lparr>resolving := insert t (resolving s)\<rparr>) = Some (Inr a, s1)"
    and recs: "all_records (Suc n) s t = pre @ r # post"
    and pre: "inject n a pre s1 = Some (Inr (), s2)"
  shows "get (Suc n) (Some t) s =
    (case get n (dependency r) s2 of
       None \<Rightarrow> None
     | Some (Inl e, s3) \<Rightarrow> Some (Inl e, s3\<lparr>resolving := resolving s3 - {t}\<rparr>)
     | Some (Inr v, s3) \<Rightarrow>
         (case inject n a post (defineProperty a (key r) v s3) of
            None \<Rightarrow> None
          | Some (Inl e, s4) \<Rightarrow> Some (Inl e, s4\<lparr>resolving := resolving s4 - {t}\<rparr>)
          | Some (Inr u, s4) \<Rightarrow>
              if ends (Suc n) (proto_constructor s) (Some t)
              then Some (Inr a, (cache t a s4)\<lparr>resolving := resolving (cache t a s4) - {t}\<rparr>)
              else None))"
proof -
  from new_fields[OF new] have f: "injections s1 = injections s"
    "proto_constructor s1 = proto_constructor s" by simp_all
  have w: "walk (Suc n) n a (Some t) s1 =
      (case inject n a (pre @ r # post) s1 of
         None \<Rightarrow> None
       | Some (Inl e, s2) \<Rightarrow> Some (Inl e, s2)
       | Some (Inr u, s2) \<Rightarrow>
           if ends (Suc n) (proto_constructor s) (Some t) then Some (Inr (), s2) else None)"
    using recs unfolding walk_flat [of "Suc n" n a "Some t" s1] f all_records_def by simp
  have g: "get (Suc n) (Some t) s =
      (case walk (Suc n) n a (Some t) s1 of
         None \<Rightarrow> None
       | Some (Inl e, s2) \<Rightarrow> Some (Inl e, s2\<lparr>resolving := resolving s2 - {t}\<rparr>)
       | Some (Inr u, s2) \<Rightarrow>
           Some (Inr a, (cache t a s2)\<lparr>resolving := resolving (cache t a s2) - {t}\<rparr>))"
    using get_enter[OF reg un nr, of n] new by (simp del: get.simps walk.simps)
  have i: "inject n a (pre @ r # post) s1 =
      (case get n (dependency r) s2 of
         None \<Rightarrow> None
       | Some (Inl e, s3) \<Rightarrow> Some (Inl e, s3)
       | Some (Inr v, s3) \<Rightarrow> inject n a post (defineProperty a (key r) v s3))"
    by (simp add: inject_append pre)
  show ?thesis
  proof (cases "get n (dependency r) s2")
    case None
    then show ?thesis unfolding g w i by simp
  next
    case (Some y)
    obtain x s3 where y: "y = (x, s3)" by (cases y)
    show ?thesis
    proof (cases x)
      case (Inl e)
      with Some y show ?thesis unfolding g w i by simp
    next
      case (Inr v)
      show ?thesis
      proof (cases "inject n a post (defineProperty a (key r) v s3)")
        case None
        with Some y Inr show ?thesis unfolding g w i by simp
      next
        case (Some z)
        obtain q s4 where z: "z = (q, s4)" by (cases z)
        from Some z \<open>get n (dependency r) s2 = Some y\<close> y Inr show ?thesis
          unfolding g w i by (cases q) (simp_all del: ends.simps)
      qed
    qed
  qed
qed

lemma get_heap_at:
  "get n t s = Some (r, s') \<Longrightarrow> allocating s \<Longrightarrow> a < length (heap s) \<Longrightarrow>
     heap s' ! a = heap s ! a \<and> a < length (heap s')"
  using heap_frame(1) [of n t s r s' a] allocated_all(1) [of n t s r s']
  by (simp add: allocating_store_kept)

lemma inject_object:
  "inject n a rs s = Some (q, s') \<Longrightarrow> allocating s \<Longrightarrow> a < length (heap s) \<Longrightarrow>
     (\<forall>k. k \<notin> key ` set rs \<longrightarrow> props (heap s' ! a) k = props (heap s ! a) k)"
proof (induction rs arbitrary: s)
  case Nil
  then show ?case by simp
next
  case (Cons r rs)
  from Cons.prems(1) obtain x s1 where g: "get n (dependency r) s = Some (x, s1)"
    by (auto split: option.splits)
  from get_heap_at[OF g Cons.prems(2,3)]
  have h1: "heap s1 ! a = heap s ! a" and l1: "a < length (heap s1)" by simp_all
  show ?case
  proof (cases x)
    case (Inl e)
    with Cons.prems(1) g h1 show ?thesis by auto
  next
    case (Inr v)
    let ?s2 = "defineProperty a (key r) v s1"
    from Inr Cons.prems(1) g have i: "inject n a rs ?s2 = Some (q, s')" by simp
    from l1 have l2: "a < length (heap ?s2)" by (simp add: defineProperty_def)
    have k2: "allocating ?s2"
      using Cons.prems(2) allocating_steady[OF steady_all(1)[OF g]]
      by (simp add: allocating_defineProperty)
    from Cons.IH[OF i k2 l2]
    have p: "\<And>k. k \<notin> key ` set rs \<Longrightarrow> props (heap s' ! a) k = props (heap ?s2 ! a) k"
      by simp
    have p2: "props (heap ?s2 ! a) k = props (heap s ! a) k" if "k \<noteq> key r" for k
      using l1 h1 that by (simp add: defineProperty_def)
    from p p2 show ?thesis by simp
  qed
qed

lemma get_Inr_defined: "get n d s = Some (Inr v, s') \<Longrightarrow> \<exists>u. d = Some u"
  by (cases n; cases d) simp_all

lemma inject_record:
  assumes run: "inject n a (pre @ r # post) s = Some (Inr u, s')"
    and al: "allocating s"
    and a: "a < length (heap s)" and last: "key r \<notin> key ` set post"
  shows "\<exists>d b. dependency r = Some d \<and> instance_of s' d = Some b
           \<and> props (heap s' ! a) (key r) = Some b"
proof -
  from run obtain s2 where pre: "inject n a pre s = Some (Inr (), s2)"
    and rest: "inject n a (r # post) s2 = Some (Inr u, s')"
    by (auto simp: inject_append split: option.splits sum.splits)
  from allocated_all(2)[OF pre allocating_store_kept[OF al]] a
  have a2: "a < length (heap s2)" by simp
  have al2: "allocating s2" using al allocating_steady[OF steady_all(2)[OF pre]] by simp
  from rest obtain v s3 where g: "get n (dependency r) s2 = Some (Inr v, s3)"
    and post: "inject n a post (defineProperty a (key r) v s3) = Some (Inr u, s')"
    by (auto split: option.splits sum.splits)
  from get_Inr_defined[OF g] obtain d where d: "dependency r = Some d" ..
  from g d have "instance_of s3 d = Some v" by (simp add: get_returns_cached)
  then have "instance_of (defineProperty a (key r) v s3) d = Some v"
    by (simp add: instance_of_defineProperty)
  with steady_all(2)[OF post] have i: "instance_of s' d = Some v" by (simp add: steady_def)
  from get_heap_at[OF g al2 a2] have a3: "a < length (heap s3)" by simp
  then have a4: "a < length (heap (defineProperty a (key r) v s3))"
    and p4: "props (heap (defineProperty a (key r) v s3) ! a) (key r) = Some v"
    by (simp_all add: defineProperty_def)
  have al4: "allocating (defineProperty a (key r) v s3)"
    using al2 allocating_steady[OF steady_all(1)[OF g]] by (simp add: allocating_defineProperty)
  from inject_object[OF post al4 a4] last p4 have "props (heap s' ! a) (key r) = Some v" by simp
  with d i show ?thesis by simp
qed

lemma throw_not_cached:
  assumes "get n (Some u) s = Some (Inl e, s')"
  shows "instance_of s' u = None"
proof (cases n)
  case 0
  with assms show ?thesis by simp
next
  case (Suc k)
  show ?thesis
  proof (cases "map_of (registry s) u \<noteq> None \<and> instance_of s u = None \<and> u \<notin> resolving s")
    case False
    with assms Suc show ?thesis
      by (auto simp: get_gate instance_of_def simp del: get.simps walk.simps
          split: option.splits if_splits)
  next
    case True
    then have g: "map_of (registry s) u \<noteq> None" "instance_of s u = None" "u \<notin> resolving s"
      by simp_all
    from assms Suc obtain x s1 where
      new: "new u (s\<lparr>resolving := insert u (resolving s)\<rparr>) = Some (x, s1)"
      by (auto simp: get_enter[OF g] simp del: get.simps walk.simps split: option.splits)
    have "instance_of s' u = instance_of s1 u"
    proof (cases x)
      case (Inl e')
      with assms Suc new show ?thesis
        by (auto simp: get_enter[OF g] instance_of_resolving_upd simp del: get.simps walk.simps)
    next
      case (Inr a)
      with assms Suc new obtain s2 where w: "walk (Suc k) k a (Some u) s1 = Some (Inl e, s2)"
        and res: "s' = s2\<lparr>resolving := resolving s2 - {u}\<rparr>"
        by (auto simp: get_enter[OF g] simp del: get.simps walk.simps
            split: option.splits sum.splits)
      from new_fields(1)[OF new] have "u \<in> resolving s1" by simp
      with steady_all(3)[OF w] have "instance_of s2 u = instance_of s1 u"
        by (simp add: steady_def)
      then show ?thesis by (simp add: res instance_of_resolving_upd)
    qed
    with new_fields(6)[OF new, of u] g(2) show ?thesis
      by (simp add: instance_of_resolving_upd)
  qed
qed

lemma inject_throw_split:
  "inject n a rs s = Some (Inl e, s') \<Longrightarrow>
     \<exists>pre r post s2. rs = pre @ r # post \<and> inject n a pre s = Some (Inr (), s2)
        \<and> get n (dependency r) s2 = Some (Inl e, s')"
proof (induction rs arbitrary: s)
  case Nil
  then show ?case by simp
next
  case (Cons r rs)
  from Cons.prems obtain x s1 where g: "get n (dependency r) s = Some (x, s1)"
    by (auto split: option.splits)
  show ?case
  proof (cases x)
    case (Inl e')
    with Cons.prems g have "get n (dependency r) s = Some (Inl e, s')" by simp
    then have "r # rs = [] @ r # rs \<and> inject n a [] s = Some (Inr (), s)
        \<and> get n (dependency r) s = Some (Inl e, s')" by simp
    then show ?thesis by blast
  next
    case (Inr v)
    let ?s2 = "defineProperty a (key r) v s1"
    from Inr Cons.prems g have "inject n a rs ?s2 = Some (Inl e, s')" by simp
    from Cons.IH[OF this] obtain pre r' post s3 where
      p: "rs = pre @ r' # post" "inject n a pre ?s2 = Some (Inr (), s3)"
        "get n (dependency r') s3 = Some (Inl e, s')" by blast
    from p(2) g Inr have "inject n a (r # pre) s = Some (Inr (), s3)" by simp
    with p(1,3) have "r # rs = (r # pre) @ r' # post \<and> inject n a (r # pre) s = Some (Inr (), s3)
        \<and> get n (dependency r') s3 = Some (Inl e, s')" by simp
    then show ?thesis by blast
  qed
qed

lemma throw_origin:
  "get n t s = Some (Inl e, s') \<Longrightarrow> \<exists>m d sf. calls n t s (Suc m) d sf \<and> raised_at e m d sf"
proof (induction n arbitrary: t s s')
  case 0
  then show ?case by simp
next
  case (Suc n)
  show ?case
  proof (cases t)
    case None
    with Suc.prems have "raised_at e n t s" by (simp add: raised_at_def)
    with calls.self show ?thesis by blast
  next
    case (Some u)
    show ?thesis
    proof (cases "map_of (registry s) u \<noteq> None \<and> instance_of s u = None \<and> u \<notin> resolving s")
      case False
      with Suc.prems Some have "get (Suc n) t s = Some (Inl e, s)"
        and "map_of (registry s) u = None \<or> u \<in> resolving s"
        by (auto simp: get_gate simp del: get.simps walk.simps split: option.splits if_splits)
      with Some have "raised_at e n t s" by (simp add: raised_at_def)
      with calls.self show ?thesis by blast
    next
      case True
      then have g: "map_of (registry s) u \<noteq> None" "instance_of s u = None" "u \<notin> resolving s"
        by simp_all
      let ?s0 = "s\<lparr>resolving := insert u (resolving s)\<rparr>"
      from Suc.prems Some obtain x s1 where new: "new u ?s0 = Some (x, s1)"
        by (auto simp: get_enter[OF g] simp del: get.simps walk.simps split: option.splits)
      show ?thesis
      proof (cases x)
        case (Inl e')
        with Suc.prems Some new have "e' = e"
          by (auto simp: get_enter[OF g] simp del: get.simps walk.simps)
        with new_state[OF new] Inl obtain h where "construct s u (heap s) = Some (Inl e, h)"
          by auto
        with g Some have "raised_at e n t s" by (auto simp: raised_at_def)
        with calls.self show ?thesis by blast
      next
        case (Inr a)
        with Suc.prems Some new obtain s2 where
          w: "walk (Suc n) n a (Some u) s1 = Some (Inl e, s2)"
          by (auto simp: get_enter[OF g] simp del: get.simps walk.simps
              split: option.splits sum.splits)
        from new_fields[OF new] have f: "injections s1 = injections s"
          "proto_constructor s1 = proto_constructor s" by simp_all
        from w have "inject n a (all_records (Suc n) s u) s1 = Some (Inl e, s2)"
          unfolding walk_flat [of "Suc n" n a "Some u" s1] f all_records_def
          by (auto simp del: ends.simps chain.simps split: option.splits sum.splits if_splits)
        from inject_throw_split[OF this] obtain pre r post s3 where
          p: "all_records (Suc n) s u = pre @ r # post" "inject n a pre s1 = Some (Inr (), s3)"
            "get n (dependency r) s3 = Some (Inl e, s2)" by blast
        from Suc.IH[OF p(3)] obtain m d sf where
          c: "calls n (dependency r) s3 (Suc m) d sf" "raised_at e m d sf" by blast
        from g new[unfolded Inr] p(1,2) c(1) have "calls (Suc n) (Some u) s (Suc m) d sf"
          by (rule calls.nested)
        with c(2) Some show ?thesis by blast
      qed
    qed
  qed
qed

lemma calls_stack:
  "calls n t s m d sd \<Longrightarrow> (\<forall>u\<in>resolving s. instance_of s u = None) \<Longrightarrow>
     (\<forall>u\<in>resolving sd. instance_of sd u = None) \<and> resolving s \<subseteq> resolving sd"
proof (induction rule: calls.induct)
  case (self n t s)
  then show ?case by simp
next
  case (nested s t a s1 n pre r post s2 m d sd)
  from new_fields[OF nested.hyps(4)] have s1: "resolving s1 = insert t (resolving s)"
    "\<And>u. instance_of s1 u = instance_of s u"
    by (simp_all add: instance_of_resolving_upd)
  from steady_all(2)[OF nested.hyps(6)] s1
  have s2: "resolving s2 = insert t (resolving s)"
    "\<And>u. u \<in> insert t (resolving s) \<Longrightarrow> instance_of s2 u = instance_of s u"
    by (auto simp: steady_def)
  with nested.hyps(2) nested.prems have "\<forall>u\<in>resolving s2. instance_of s2 u = None" by auto
  from nested.IH[OF this] s2(1) show ?case by auto
qed

lemma calls_registered:
  "calls n t s m d sd \<Longrightarrow> (\<forall>u\<in>resolving s. map_of (registry s) u \<noteq> None) \<Longrightarrow>
     (\<forall>u\<in>resolving sd. map_of (registry sd) u \<noteq> None)"
proof (induction rule: calls.induct)
  case (self n t s)
  then show ?case by simp
next
  case (nested s t a s1 n pre r post s2 m d sd)
  from new_fields[OF nested.hyps(4)] have s1: "resolving s1 = insert t (resolving s)"
    "registry s1 = registry s"
    by simp_all
  from steady_all(2)[OF nested.hyps(6)]
  have "resolving s2 = resolving s1"
    and "\<And>u. (map_of (registry s2) u = None) = (map_of (registry s1) u = None)"
    by (simp_all add: steady_def registered_steady)
  with s1 nested.hyps(1) nested.prems have "\<forall>u\<in>resolving s2. map_of (registry s2) u \<noteq> None"
    by auto
  then show ?case by (rule nested.IH)
qed

lemma calls_throw:
  "calls n t s m d sd \<Longrightarrow> get m d sd = Some (Inl e, sd') \<Longrightarrow>
     \<exists>s'. get n t s = Some (Inl e, s') \<and> registry s' = registry sd' \<and> heap s' = heap sd'"
proof (induction rule: calls.induct)
  case (self n t s)
  then show ?case by simp
next
  case (nested s t a s1 n pre r post s2 m d sd)
  from nested.IH[OF nested.prems] obtain s3 where
    g: "get n (dependency r) s2 = Some (Inl e, s3)" "registry s3 = registry sd'" "heap s3 = heap sd'"
    by blast
  from frame_run[OF nested.hyps(1-6)] g(1)
  have "get (Suc n) (Some t) s = Some (Inl e, s3\<lparr>resolving := resolving s3 - {t}\<rparr>)"
    by (simp del: get.simps walk.simps ends.simps)
  with g(2,3) show ?case by simp
qed

lemma calls_keeps:
  "calls n t s m d sd \<Longrightarrow> get m d sd = Some (x, sd') \<Longrightarrow> get n t s = Some (y, s') \<Longrightarrow>
     instance_of sd' u = Some b \<Longrightarrow> instance_of s' u = Some b"
proof (induction arbitrary: y s' rule: calls.induct)
  case (self n t s)
  then show ?case by simp
next
  case (nested s t a s1 n pre r post s2 m d sd)
  note run = frame_run[OF nested.hyps(1-6)]
  from nested.prems(2) obtain x2 s3 where g: "get n (dependency r) s2 = Some (x2, s3)"
    unfolding run by (auto split: option.splits)
  from nested.IH[OF nested.prems(1) g nested.prems(3)] have i3: "instance_of s3 u = Some b" .
  from new_fields[OF nested.hyps(4)] nested.hyps(2)
  have s1: "t \<in> resolving s1" "instance_of s1 t = None"
    by (simp_all add: instance_of_resolving_upd)
  from steady_all(2)[OF nested.hyps(6)] s1 have s2: "t \<in> resolving s2" "instance_of s2 t = None"
    by (auto simp: steady_def)
  from steady_all(1)[OF g] s2 have s3: "t \<in> resolving s3" "instance_of s3 t = None"
    by (auto simp: steady_def)
  show ?case
  proof (cases x2)
    case (Inl e)
    with nested.prems(2) g have "s' = s3\<lparr>resolving := resolving s3 - {t}\<rparr>"
      unfolding run by simp
    with i3 show ?thesis by (simp add: instance_of_resolving_upd)
  next
    case (Inr v)
    let ?s4 = "defineProperty a (key r) v s3"
    from nested.prems(2) g Inr obtain q s5 where
      p: "inject n a post ?s4 = Some (q, s5)"
      unfolding run by (auto split: option.splits)
    have "steady s3 ?s4" by (rule steady_defineProperty)
    with steady_all(2)[OF p] have "steady s3 s5" by (blast intro: steady_trans)
    with i3 s3 have i5: "instance_of s5 u = Some b" and t5: "instance_of s5 t = None"
      by (auto simp: steady_def)
    then have ne: "u \<noteq> t" by auto
    show ?thesis
    proof (cases q)
      case (Inl e)
      with nested.prems(2) g Inr p have "s' = s5\<lparr>resolving := resolving s5 - {t}\<rparr>"
        unfolding run by simp
      with i5 show ?thesis by (simp add: instance_of_resolving_upd)
    next
      case (Inr w)
      with nested.prems(2) g \<open>x2 = Inr v\<close> p
      have "s' = (cache t a s5)\<lparr>resolving := resolving (cache t a s5) - {t}\<rparr>"
        unfolding run by (simp del: ends.simps split: if_splits)
      with i5 ne show ?thesis by (simp add: instance_of_resolving_upd instance_of_cache)
    qed
  qed
qed

lemma all_records_unfold:
  "all_records (Suc k) s t =
     direct (injections s) t
       @ (case proto_constructor s t of None \<Rightarrow> [] | Some p \<Rightarrow> all_records k s p)"
  by (cases "proto_constructor s t") (simp_all add: all_records_def)

lemma direct_Inject:
  "direct (injections (Inject d c k s)) c' =
     (if c' = c then direct (injections s) c @ [\<lparr>key = k, dependency = d\<rparr>]
      else direct (injections s) c')"
  by (auto simp: direct_def Inject_def Let_def map_of_map_entry split: option.splits)

text \<open>A loop that finds the same class again, and has nothing to inject, never returns.\<close>

lemma walk_loops:
  "proto_constructor s c = Some c \<Longrightarrow> map_of (injections s) c = None \<Longrightarrow>
     walk k n a (Some c) s = None"
  by (induction k) simp_all

lemma cyclic_prototype_never_returns: "get n (Some Loop) loop_state = None"
proof (cases n)
  case 0
  then show ?thesis by simp
next
  case (Suc m)
  have s: "loop_state =
     \<lparr>registry = [(Loop, \<lparr>instance_slot = None\<rparr>)], injections = [], resolving = {}, heap = [],
      construct = plain, proto_constructor = (\<lambda>c. None)(Loop := Some Loop)\<rparr>"
    by (simp add: loop_state_def Injectable_def init_def class_extends_def)
  have g: "map_of (registry loop_state) Loop \<noteq> None" "instance_of loop_state Loop = None"
    "Loop \<notin> resolving loop_state"
    by (simp_all add: s instance_of_def)
  have new: "new Loop (loop_state\<lparr>resolving := insert Loop (resolving loop_state)\<rparr>)
    = Some (Inr 0, loop_state\<lparr>resolving := {Loop}, heap := [\<lparr>cls = Loop, props = Map.empty\<rparr>]\<rparr>)"
    by (simp add: s new_def plain_def)
  have "walk (Suc m) m 0 (Some Loop)
      (loop_state\<lparr>resolving := {Loop}, heap := [\<lparr>cls = Loop, props = Map.empty\<rparr>]\<rparr>) = None"
    by (rule walk_loops) (simp_all add: s)
  with new show ?thesis
    unfolding Suc get_enter[OF g] by (simp del: walk.simps)
qed

lemma boom_state_eq:
  "boom_state =
     \<lparr>registry = [(Boom, \<lparr>instance_slot = None\<rparr>)], injections = [], resolving = {}, heap = [],
      construct = plain(Boom := \<lambda>h. Some (Inl (Error ''boom''), h)),
      proto_constructor = (\<lambda>c. None)\<rparr>"
  by (simp add: boom_state_def Injectable_def init_def with_constructor_def)

lemma single_state_eq:
  "single_state =
     \<lparr>registry = [(Single, \<lparr>instance_slot = None\<rparr>)], injections = [], resolving = {},
      heap = [], construct = plain(Single := single_constructor),
      proto_constructor = (\<lambda>c. None)\<rparr>"
  by (simp add: single_state_def Injectable_def init_def with_constructor_def)

lemma calls_cycle: "calls 3 (Some A) cycle_state 1 (Some A) cycle_reentry_state"
proof -
  let ?oA = "\<lparr>cls = A, props = Map.empty\<rparr>" and ?oB = "\<lparr>cls = B, props = Map.empty\<rparr>"
  let ?s1 = "cycle_state\<lparr>resolving := {A}, heap := [?oA]\<rparr>"
  have ab: "A \<noteq> B" by (simp add: class_defs)
  have c0: "calls 1 (Some A) cycle_reentry_state 1 (Some A) cycle_reentry_state"
    by (rule calls.self)
  have b: "map_of (registry ?s1) B \<noteq> None" "instance_of ?s1 B = None" "B \<notin> resolving ?s1"
    "new B (?s1\<lparr>resolving := insert B (resolving ?s1)\<rparr>) = Some (Inr 1, cycle_reentry_state)"
    "all_records (Suc 1) ?s1 B = [] @ \<lparr>key = Str ''a'', dependency = Some A\<rparr> # []"
    "inject 1 1 [] cycle_reentry_state = Some (Inr (), cycle_reentry_state)"
    using ab by (auto simp: cycle_state_eq cycle_reentry_state_def instance_of_def new_def plain_def
        all_records_def direct_def class_defs)
  have d: "dependency \<lparr>key = Str ''a'', dependency = Some A\<rparr> = Some A"
    "dependency \<lparr>key = Str ''b'', dependency = Some B\<rparr> = Some B" by simp_all
  from calls.nested [OF b] c0 d(1)
  have c1: "calls (Suc 1) (Some B) ?s1 1 (Some A) cycle_reentry_state" by simp
  have a: "map_of (registry cycle_state) A \<noteq> None" "instance_of cycle_state A = None"
    "A \<notin> resolving cycle_state"
    "new A (cycle_state\<lparr>resolving := insert A (resolving cycle_state)\<rparr>) = Some (Inr 0, ?s1)"
    "all_records (Suc (Suc 1)) cycle_state A = [] @ \<lparr>key = Str ''b'', dependency = Some B\<rparr> # []"
    "inject (Suc 1) 0 [] ?s1 = Some (Inr (), ?s1)"
    using ab by (auto simp: cycle_state_eq instance_of_def new_def plain_def
        all_records_def direct_def class_defs)
  from calls.nested [OF a] c1 d(2)
  have "calls (Suc (Suc 1)) (Some A) cycle_state 1 (Some A) cycle_reentry_state" by simp
  then show ?thesis by (simp add: numeral_3_eq_3)
qed

section \<open>The claims\<close>

text \<open>
  C1. A call of \<open>get\<close> that has returned an instance of a type returns the same reference
  again, directly afterwards and after any other call of \<open>get\<close>, whatever that one
  returned or threw. No call of \<open>get\<close> changes a slot that is filled, and the walk of the
  dependencies of a type leaves the slot of that type unset, so that the assignment
  after the walk is the only one to that slot. All of this holds whatever the
  constructors do.
\<close>

theorem singleton_identity:
  "(get n (Some t) s = Some (Inr a, s1) \<longrightarrow> get (Suc m) (Some t) s1 = Some (Inr a, s1))
   \<and> (get n (Some t) s = Some (Inr a, s1) \<longrightarrow> get k u s1 = Some (r, s2) \<longrightarrow>
        get (Suc m) (Some t) s2 = Some (Inr a, s2))
   \<and> (get k u s = Some (r, s') \<longrightarrow> instance_of s v = Some b \<longrightarrow> instance_of s' v = Some b)
   \<and> (instance_of s t = None \<longrightarrow> t \<notin> resolving s \<longrightarrow>
        new t (s\<lparr>resolving := insert t (resolving s)\<rparr>) = Some (Inr a', s0) \<longrightarrow>
        walk j k a' (Some t) s0 = Some (q, s3) \<longrightarrow>
        instance_of s3 t = None)"
proof (intro conjI impI)
  assume g: "get n (Some t) s = Some (Inr a, s1)"
  then have c: "instance_of s1 t = Some a" by (rule get_returns_cached)
  then show "get (Suc m) (Some t) s1 = Some (Inr a, s1)"
    by (auto simp: instance_of_def split: option.splits)
  assume "get k u s1 = Some (r, s2)"
  then have "steady s1 s2" by (rule steady_all(1))
  with c have "instance_of s2 t = Some a" by (simp add: steady_def)
  then show "get (Suc m) (Some t) s2 = Some (Inr a, s2)"
    by (auto simp: instance_of_def split: option.splits)
next
  assume "get k u s = Some (r, s')" and "instance_of s v = Some b"
  with steady_all(1) show "instance_of s' v = Some b"
    unfolding steady_def by blast
next
  let ?s0 = "s\<lparr>resolving := insert t (resolving s)\<rparr>"
  assume n: "instance_of s t = None" and "t \<notin> resolving s"
    and new: "new t ?s0 = Some (Inr a', s0)"
    and w: "walk j k a' (Some t) s0 = Some (q, s3)"
  from new_fields[OF new] have "t \<in> resolving s0" "instance_of s0 t = instance_of s t"
    by (simp_all add: instance_of_resolving_upd)
  with steady_all(3)[OF w] n show "instance_of s3 t = None"
    by (simp add: steady_def)
qed

theorem singleton_identity_witness:
  "get 2 (Some TestB) test_state = Some (Inr 0, resolved_state)
   \<and> get 1 (Some TestB) resolved_state = Some (Inr 0, resolved_state)
   \<and> get 1 (Some TestA) resolved_state = Some (Inr 1, resolved_state)
   \<and> get 1 (Some TestA) test_state = Some (Inr 0, testA_resolved)
   \<and> instance_of testA_resolved TestA = Some 0
   \<and> (\<exists>s'. get 2 (Some TestB) testA_resolved = Some (Inr 1, s') \<and> instance_of s' TestA = Some 0
         \<and> get 1 (Some TestA) s' = Some (Inr 0, s'))
   \<and> instance_of test_state TestB = None \<and> TestB \<notin> resolving test_state
   \<and> (\<exists>s0 s3. new TestB (test_state\<lparr>resolving := {TestB}\<rparr>) = Some (Inr 0, s0)
         \<and> walk 2 1 0 (Some TestB) s0 = Some (Inr (), s3) \<and> instance_of s3 TestB = None)"
proof -
  have run2: "get 1 (Some TestA) resolved_state = Some (Inr 1, resolved_state)"
    by (simp add: resolved_state_def test_state_eq class_defs)
  have n: "instance_of test_state TestB = None" "TestB \<notin> resolving test_state"
    by (simp_all add: test_state_eq instance_of_def class_defs)
  obtain s0 where new: "new TestB (test_state\<lparr>resolving := insert TestB (resolving test_state)\<rparr>)
      = Some (Inr 0, s0)"
    and s0: "s0 = test_state\<lparr>resolving := {TestB}, heap := [\<lparr>cls = TestB, props = Map.empty\<rparr>]\<rparr>"
    by (simp add: test_state_eq new_def plain_def)
  obtain s3 where w: "walk 2 1 0 (Some TestB) s0 = Some (Inr (), s3)"
    by (simp add: s0 test_state_eq run_simps)
  have i: "instance_of testA_resolved TestA = Some 0"
    by (simp add: testA_resolved_def instance_of_def)
  obtain s' where run3: "get 2 (Some TestB) testA_resolved = Some (Inr 1, s')"
    by (simp add: testA_resolved_def test_state_eq run_simps)
  from singleton_identity [where n = 2 and t = TestB and s = test_state and a = 0
      and ?s1.0 = resolved_state and m = 0 and k = 1 and u = "Some TestA" and r = "Inr 1"
      and ?s2.0 = resolved_state and a' = 0 and ?s0.0 = s0 and j = 2 and q = "Inr ()"
      and ?s3.0 = s3]
    run_TestB run2 n new w
  have a: "get 1 (Some TestB) resolved_state = Some (Inr 0, resolved_state)"
    and b: "instance_of s3 TestB = None"
    by simp_all
  from singleton_identity [where n = 1 and t = TestA and s = test_state and a = 0
      and ?s1.0 = testA_resolved and m = 0 and k = 2 and u = "Some TestB" and r = "Inr 1"
      and ?s2.0 = s']
    run_TestA run3
  have c: "get 1 (Some TestA) s' = Some (Inr 0, s')" by simp
  from singleton_identity [where s = testA_resolved and k = 2 and u = "Some TestB"
      and r = "Inr 1" and s' = s' and v = TestA and b = 0] run3 i
  have d: "instance_of s' TestA = Some 0" by simp
  from new have new': "new TestB (test_state\<lparr>resolving := {TestB}\<rparr>) = Some (Inr 0, s0)"
    by (simp add: test_state_eq)
  from run_TestB run2 n w new' a b c d run3 run_TestA i show ?thesis by blast
qed

text \<open>
  C2. A call of \<open>get\<close> on a registered type without a cached instance that is in the
  resolving set throws the error of the circular dependency, whose message names that
  type, and changes nothing. In every call made during a run of \<open>get\<close> that started
  with an empty resolving set, a type of the resolving set is such a type, so that the
  call throws that error whenever its type is in the resolving set.
\<close>

theorem get_reentrant_throws:
  "(t \<in> resolving s \<longrightarrow> map_of (registry s) t \<noteq> None \<longrightarrow> instance_of s t = None \<longrightarrow>
      get (Suc n) (Some t) s =
        Some (Inl (Error (''[DI] Circular dependency detected while resolving '' @ name t)), s))
   \<and> (resolving s0 = {} \<longrightarrow> calls k t0 s0 (Suc n) (Some t) s \<longrightarrow> t \<in> resolving s \<longrightarrow>
      get (Suc n) (Some t) s =
        Some (Inl (Error (''[DI] Circular dependency detected while resolving '' @ name t)), s))"
proof -
  have local: "get (Suc n) (Some t) s =
        Some (Inl (Error (''[DI] Circular dependency detected while resolving '' @ name t)), s)"
    if "t \<in> resolving s" "map_of (registry s) t \<noteq> None" "instance_of s t = None"
    using that by (auto simp: instance_of_def circular_msg_def split: option.splits)
  have "map_of (registry s) t \<noteq> None \<and> instance_of s t = None"
    if e: "resolving s0 = {}" and c: "calls k t0 s0 (Suc n) (Some t) s" and t: "t \<in> resolving s"
  proof -
    from e have "\<forall>u\<in>resolving s0. map_of (registry s0) u \<noteq> None"
      and "\<forall>u\<in>resolving s0. instance_of s0 u = None" by simp_all
    from calls_registered[OF c this(1)] t have "map_of (registry s) t \<noteq> None" by blast
    moreover from calls_stack[OF c \<open>\<forall>u\<in>resolving s0. instance_of s0 u = None\<close>] t
    have "instance_of s t = None" by blast
    ultimately show ?thesis by simp
  qed
  with local show ?thesis by (intro conjI impI) simp_all
qed

theorem get_reentrant_throws_witness:
  "A \<in> resolving cycle_reentry_state \<and> map_of (registry cycle_reentry_state) A \<noteq> None
   \<and> instance_of cycle_reentry_state A = None
   \<and> resolving cycle_state = {}
   \<and> calls 3 (Some A) cycle_state 1 (Some A) cycle_reentry_state
   \<and> get 1 (Some A) cycle_reentry_state =
       Some (Inl (Error ''[DI] Circular dependency detected while resolving A''),
             cycle_reentry_state)"
proof -
  have h: "A \<in> resolving cycle_reentry_state" "map_of (registry cycle_reentry_state) A \<noteq> None"
    "instance_of cycle_reentry_state A = None"
    by (simp_all add: cycle_reentry_state_def cycle_state_eq instance_of_def class_defs)
  have e: "resolving cycle_state = {}" by (simp add: cycle_state_eq)
  have c: "calls 3 (Some A) cycle_state (Suc 0) (Some A) cycle_reentry_state"
    using calls_cycle by simp
  have nm: "name A = ''A''" by (simp add: class_defs)
  from get_reentrant_throws [of A cycle_reentry_state 0 cycle_state 3 "Some A"] h e c nm
  show ?thesis using calls_cycle by simp
qed

text \<open>
  C3. The walk of the prototype chain resolves, in order, the records declared on the
  type itself and then on each of its ancestors, up to the one whose prototype is that
  of \<^verbatim>\<open>Object\<close>: it does what the injection of the concatenation of their direct records
  does, and returns when the chain has ended; each declaration has put its record after
  those declared before on the same type. When the resolution of a type without a
  cached instance returns and constructors make new objects, then for every record of
  that concatenation whose key no later record writes again, the property of that key
  of the returned object holds the instance cached for the dependency of the record,
  which is what \<open>get\<close> returns for it. A record of an ancestor that is not registered is
  treated the same.
\<close>

theorem inheritance_aware_injection:
  "walk k n a (Some t) s =
     (case inject n a (all_records k s t) s of
        None \<Rightarrow> None
      | Some (Inl e, s1) \<Rightarrow> Some (Inl e, s1)
      | Some (Inr u, s1) \<Rightarrow>
          if ends k (proto_constructor s) (Some t) then Some (Inr (), s1) else None)
   \<and> all_records (Suc k) s t =
       direct (injections s) t
         @ (case proto_constructor s t of None \<Rightarrow> [] | Some p \<Rightarrow> all_records k s p)
   \<and> direct (injections (Inject dep t kk s)) t
       = direct (injections s) t @ [\<lparr>key = kk, dependency = dep\<rparr>]
   \<and> (get (Suc n) (Some t) s = Some (Inr a, s') \<longrightarrow> instance_of s t = None \<longrightarrow>
        allocating s \<longrightarrow>
        all_records (Suc n) s t = pre @ r # post \<longrightarrow> key r \<notin> key ` set post \<longrightarrow>
        a < length (heap s')
        \<and> (\<exists>d b. dependency r = Some d \<and> instance_of s' d = Some b
               \<and> get (Suc m) (Some d) s' = Some (Inr b, s')
               \<and> props (heap s' ! a) (key r) = Some b))"
proof (intro conjI impI)
  show "walk k n a (Some t) s =
     (case inject n a (all_records k s t) s of
        None \<Rightarrow> None
      | Some (Inl e, s1) \<Rightarrow> Some (Inl e, s1)
      | Some (Inr u, s1) \<Rightarrow>
          if ends k (proto_constructor s) (Some t) then Some (Inr (), s1) else None)"
    unfolding all_records_def by (rule walk_flat)
  show "all_records (Suc k) s t =
       direct (injections s) t
         @ (case proto_constructor s t of None \<Rightarrow> [] | Some p \<Rightarrow> all_records k s p)"
    by (rule all_records_unfold)
  show "direct (injections (Inject dep t kk s)) t
       = direct (injections s) t @ [\<lparr>key = kk, dependency = dep\<rparr>]"
    by (simp add: direct_Inject)
next
  assume g: "get (Suc n) (Some t) s = Some (Inr a, s')" and un: "instance_of s t = None"
    and al: "allocating s"
    and recs: "all_records (Suc n) s t = pre @ r # post"
    and last: "key r \<notin> key ` set post"
  let ?s0 = "s\<lparr>resolving := insert t (resolving s)\<rparr>"
  from g un have gates: "map_of (registry s) t \<noteq> None" "t \<notin> resolving s"
    by (auto simp: instance_of_def split: option.splits if_splits)
  note enter = get_enter[OF gates(1) un gates(2)]
  from g obtain a1 s1 u s2 where new: "new t ?s0 = Some (Inr a1, s1)"
    and w: "walk (Suc n) n a1 (Some t) s1 = Some (Inr u, s2)"
    and res: "a = a1" "s' = (cache t a1 s2)\<lparr>resolving := resolving (cache t a1 s2) - {t}\<rparr>"
    unfolding enter by (auto simp del: get.simps walk.simps split: option.splits sum.splits)
  from new_state[OF new] obtain h where
    c: "construct s t (heap s) = Some (Inr a1, h)" and s1: "s1 = ?s0\<lparr>heap := h\<rparr>" by auto
  from al c have a1: "a1 < length (heap s1)" unfolding allocating_def s1 by fastforce
  have al1: "allocating s1" using al s1 by (simp add: allocating_def)
  from new_fields[OF new] have f: "injections s1 = injections s"
    "proto_constructor s1 = proto_constructor s" by simp_all
  from w have i: "inject n a1 (pre @ r # post) s1 = Some (Inr u, s2)"
    unfolding walk_flat [of "Suc n" n a1 "Some t" s1] f recs [unfolded all_records_def]
    by (auto simp del: ends.simps chain.simps split: option.splits sum.splits if_splits)
  have h: "heap s' = heap s2" using res by (simp add: cache_def)
  from new_fields[OF new] have "t \<in> resolving s1" "instance_of s1 t = instance_of s t"
    by (simp_all add: instance_of_resolving_upd)
  with steady_all(3)[OF w] un have t2: "instance_of s2 t = None" by (simp add: steady_def)
  have io: "instance_of s' d = Some b" if "instance_of s2 d = Some b" for d b
  proof -
    from that t2 have "d \<noteq> t" by auto
    with that show ?thesis by (simp add: res instance_of_resolving_upd instance_of_cache)
  qed
  from allocated_all(2)[OF i allocating_store_kept[OF al1]] a1
  have l: "a1 < length (heap s2)" by simp
  from inject_record[OF i al1 a1 last] obtain d b where
    d: "dependency r = Some d" "instance_of s2 d = Some b" "props (heap s2 ! a1) (key r) = Some b"
    by blast
  from d(2) have d': "instance_of s' d = Some b" by (rule io)
  then have "get (Suc m) (Some d) s' = Some (Inr b, s')"
    by (auto simp: instance_of_def split: option.splits)
  with d d' show "\<exists>d b. dependency r = Some d \<and> instance_of s' d = Some b
               \<and> get (Suc m) (Some d) s' = Some (Inr b, s')
               \<and> props (heap s' ! a) (key r) = Some b"
    by (simp add: h res(1))
  from l show "a < length (heap s')" by (simp add: h res(1))
qed

theorem inheritance_aware_injection_witness:
  "get 2 (Some MyController) controller_state = Some (Inr 0, controller_resolved)
   \<and> instance_of controller_state MyController = None
   \<and> allocating controller_state
   \<and> map_of (registry controller_state) BaseController = None
   \<and> map_of (injections controller_state) MyController = None
   \<and> all_records 2 controller_state MyController
       = [] @ \<lparr>key = Str ''logger'', dependency = Some Logger\<rparr> # []
   \<and> instance_of controller_resolved Logger = Some 1
   \<and> get 1 (Some Logger) controller_resolved = Some (Inr 1, controller_resolved)
   \<and> props (heap controller_resolved ! 0) (Str ''logger'') = Some 1"
proof -
  have run: "get (Suc 1) (Some MyController) controller_state = Some (Inr 0, controller_resolved)"
    using run_MyController by (simp add: numeral_2_eq_2)
  have un: "instance_of controller_state MyController = None"
    "map_of (registry controller_state) BaseController = None"
    "map_of (injections controller_state) MyController = None"
    by (simp_all add: controller_state_eq instance_of_def class_defs)
  have al: "allocating controller_state"
    by (auto simp: allocating_def controller_state_eq plain_def)
  have recs: "all_records (Suc 1) controller_state MyController
       = [] @ \<lparr>key = Str ''logger'', dependency = Some Logger\<rparr> # []"
    by (simp add: controller_state_eq all_records_def direct_def class_defs)
  have last: "key \<lparr>key = Str ''logger'', dependency = Some Logger\<rparr> \<notin> key ` set []" by simp
  from inheritance_aware_injection [where n = 1 and a = 0 and t = MyController
      and s = controller_state and s' = controller_resolved and pre = "[]"
      and r = "\<lparr>key = Str ''logger'', dependency = Some Logger\<rparr>" and post = "[]" and m = 0]
    run un(1) al recs last
  have "instance_of controller_resolved Logger = Some 1
        \<and> get 1 (Some Logger) controller_resolved = Some (Inr 1, controller_resolved)
        \<and> props (heap controller_resolved ! 0) (Str ''logger'') = Some 1"
    by (auto simp: controller_resolved_def controller_state_eq instance_of_def class_defs)
  with run_MyController un al recs show ?thesis by (simp add: numeral_2_eq_2)
qed

text \<open>
  C4. When the metadata of the type holds an instance, \<open>get\<close> returns it and changes
  nothing, whether or not the type is in the resolving set: the cache is read before
  the cycle check.
\<close>

theorem get_cache_hit_first:
  "instance_of s t = Some a \<Longrightarrow> get (Suc n) (Some t) s = Some (Inr a, s)"
  by (auto simp: instance_of_def split: option.splits)

theorem get_cache_hit_first_witness:
  "TestA \<in> resolving reentered_state \<and> instance_of reentered_state TestA = Some 0
   \<and> get 1 (Some TestA) reentered_state = Some (Inr 0, reentered_state)"
proof -
  have h: "instance_of reentered_state TestA = Some 0"
    by (simp add: instance_of_def reentered_state_def)
  from get_cache_hit_first [OF h, of 0] h show ?thesis
    by (simp add: reentered_state_def)
qed

text \<open>
  C5. \<open>get\<close> first checks that the type is defined, and throws with the message of the
  undefined dependency when it is not, whatever the registry holds; a defined type
  without metadata in the registry makes it throw with the message that names the type.
  Nothing is changed in either case.
\<close>

theorem get_input_gates:
  "get (Suc n) None s =
     Some (Inl (Error ''[DI] Cannot resolve dependency: type is undefined. Possible circular import or missing dependency.''), s)
   \<and> (map_of (registry s) t = None \<longrightarrow>
        get (Suc n) (Some t) s =
          Some (Inl (Error (''[DI] '' @ name t @ '' is not registered. Use @Injectable'')), s))"
  by (simp add: undefined_msg_def unregistered_msg_def)

theorem get_input_gates_witness:
  "map_of (registry test_state) UnDecoratedService = None
   \<and> get 1 None test_state =
       Some (Inl (Error ''[DI] Cannot resolve dependency: type is undefined. Possible circular import or missing dependency.''), test_state)
   \<and> get 1 (Some UnDecoratedService) test_state =
       Some (Inl (Error ''[DI] UnDecoratedService is not registered. Use @Injectable''), test_state)"
proof -
  have h: "map_of (registry test_state) UnDecoratedService = None"
    by (simp add: test_state_eq class_defs)
  have nm: "name UnDecoratedService = ''UnDecoratedService''"
    by (simp add: class_defs)
  from get_input_gates [of 0 test_state UnDecoratedService] h nm show ?thesis
    by simp
qed

text \<open>
  C6. When a call of \<open>get\<close> made during the run of a call \<open>get(t)\<close>, at any depth, throws
  an error, the run of \<open>get(t)\<close> throws that same error and returns nothing; the frames in
  between change nothing but the resolving set, so that the registry and the store are
  those the throwing call left. When no type of the resolving set had an instance at the
  start, no type that was in the resolving set when the throwing call was entered has an
  instance afterwards, and neither has the type of the throwing call. Every error
  thrown by \<open>get(t)\<close> is raised that way, by one of the three gates of a call made during
  its run, which changes nothing, or by the constructor of the type of such a call.
\<close>

theorem failure_propagates:
  "(calls n t s m d sd \<longrightarrow> get m d sd = Some (Inl e, sd') \<longrightarrow>
      (\<forall>u\<in>resolving s. instance_of s u = None) \<longrightarrow>
      (\<exists>s'. get n t s = Some (Inl e, s') \<and> registry s' = registry sd' \<and> heap s' = heap sd'
          \<and> (\<forall>u\<in>resolving sd. instance_of s' u = None)
          \<and> (\<forall>u. d = Some u \<longrightarrow> instance_of s' u = None)))
   \<and> (get n t s = Some (Inl e, s1) \<longrightarrow>
      (\<exists>m d sf. calls n t s (Suc m) d sf \<and> raised_at e m d sf))"
proof (intro conjI impI)
  assume c: "calls n t s m d sd" and g: "get m d sd = Some (Inl e, sd')"
    and inv: "\<forall>u\<in>resolving s. instance_of s u = None"
  from calls_throw[OF c g] obtain s' where
    r: "get n t s = Some (Inl e, s')" "registry s' = registry sd'" "heap s' = heap sd'" by blast
  from r(2) have eq: "instance_of s' u = instance_of sd' u" for u by (simp add: instance_of_def)
  from calls_stack[OF c inv] have "\<forall>u\<in>resolving sd. instance_of sd u = None" by simp
  with steady_all(1)[OF g] have "\<forall>u\<in>resolving sd. instance_of s' u = None"
    by (simp add: steady_def eq)
  moreover have "\<forall>u. d = Some u \<longrightarrow> instance_of s' u = None"
    using g throw_not_cached by (auto simp: eq)
  ultimately show "\<exists>s'. get n t s = Some (Inl e, s') \<and> registry s' = registry sd'
      \<and> heap s' = heap sd' \<and> (\<forall>u\<in>resolving sd. instance_of s' u = None)
      \<and> (\<forall>u. d = Some u \<longrightarrow> instance_of s' u = None)"
    using r by blast
next
  assume "get n t s = Some (Inl e, s1)"
  then show "\<exists>m d sf. calls n t s (Suc m) d sf \<and> raised_at e m d sf"
    by (rule throw_origin)
qed

theorem failure_propagates_witness:
  "calls 3 (Some A) cycle_state 1 (Some A) cycle_reentry_state
   \<and> get 1 (Some A) cycle_reentry_state = Some (Inl (Error (circular_msg A)), cycle_reentry_state)
   \<and> resolving cycle_state = {} \<and> resolving cycle_reentry_state = {A, B}
   \<and> (\<exists>s'. get 3 (Some A) cycle_state = Some (Inl (Error (circular_msg A)), s')
         \<and> registry s' = registry cycle_reentry_state \<and> heap s' = heap cycle_reentry_state
         \<and> instance_of s' A = None \<and> instance_of s' B = None)
   \<and> (\<exists>m d sf. calls 3 (Some A) cycle_state (Suc m) d sf
         \<and> raised_at (Error (circular_msg A)) m d sf)"
proof -
  have g: "get 1 (Some A) cycle_reentry_state = Some (Inl (Error (circular_msg A)), cycle_reentry_state)"
    by (simp add: cycle_reentry_state_def cycle_state_eq class_defs)
  have inv: "\<forall>u\<in>resolving cycle_state. instance_of cycle_state u = None"
    and e: "resolving cycle_state = {}" "resolving cycle_reentry_state = {A, B}"
    by (simp_all add: cycle_state_eq cycle_reentry_state_def)
  have run: "get 3 (Some A) cycle_state = Some (Inl (Error (circular_msg A)),
      cycle_state\<lparr>heap := [\<lparr>cls = A, props = Map.empty\<rparr>, \<lparr>cls = B, props = Map.empty\<rparr>]\<rparr>)"
    by (simp add: run_cycle_A) (simp add: circular_msg_def class_defs)
  from failure_propagates [of 3 "Some A" cycle_state 1 "Some A" cycle_reentry_state
      "Error (circular_msg A)" cycle_reentry_state
      "cycle_state\<lparr>heap := [\<lparr>cls = A, props = Map.empty\<rparr>, \<lparr>cls = B, props = Map.empty\<rparr>]\<rparr>"]
    calls_cycle g inv run e
  show ?thesis using calls_cycle g e by auto
qed

text \<open>
  C7. A call of \<open>get\<close> that returns or throws leaves the resolving set as it found it:
  empty when it was empty. The set is empty in the initial container, and neither the
  decorators, nor the declaration of a class, nor \<open>reset\<close> touch it, so it is empty before
  every call that is not made by \<open>get\<close> itself.
\<close>

theorem get_restores_resolving:
  "(get n t s = Some (r, s') \<longrightarrow>
      resolving s' = resolving s \<and> (resolving s = {} \<longrightarrow> resolving s' = {}))
   \<and> resolving init = {}
   \<and> resolving (Injectable c s) = resolving s
   \<and> resolving (Inject d c k s) = resolving s
   \<and> resolving (reset s) = resolving s
   \<and> resolving (class_extends c p s) = resolving s
   \<and> resolving (with_constructor c f s) = resolving s"
proof (intro conjI impI)
  assume "get n t s = Some (r, s')"
  then have "steady s s'" by (rule steady_all(1))
  then show "resolving s' = resolving s" by (simp add: steady_def)
  then show "resolving s' = {}" if "resolving s = {}" using that by simp
qed (simp_all add: init_def Injectable_def Inject_def Let_def reset_def class_extends_def
    with_constructor_def)

theorem get_restores_resolving_witness:
  "get 2 (Some TestB) test_state = Some (Inr 0, resolved_state)
   \<and> resolving test_state = {} \<and> resolving resolved_state = {}
   \<and> get 3 (Some A) fixture_state =
       Some (Inl (Error ''[DI] Cannot resolve dependency: type is undefined. Possible circular import or missing dependency.''),
         fixture_state\<lparr>heap := [\<lparr>cls = A, props = Map.empty\<rparr>, \<lparr>cls = B, props = Map.empty\<rparr>]\<rparr>)
   \<and> resolving fixture_state = {}
   \<and> resolving (fixture_state\<lparr>heap := [\<lparr>cls = A, props = Map.empty\<rparr>, \<lparr>cls = B, props = Map.empty\<rparr>]\<rparr>) = {}
   \<and> get 1 (Some Boom) boom_state = Some (Inl (Error ''boom''), boom_state)
   \<and> resolving boom_state = {}"
proof -
  have e: "resolving test_state = {}" "resolving fixture_state = {}" "resolving boom_state = {}"
    by (simp_all add: test_state_eq fixture_state_eq boom_state_eq)
  have boom: "get 1 (Some Boom) boom_state = Some (Inl (Error ''boom''), boom_state)"
    by (simp add: boom_state_eq new_def)
  from get_restores_resolving [of 2 "Some TestB" test_state "Inr 0" resolved_state] run_TestB e
  have r1: "resolving resolved_state = {}" by simp
  from get_restores_resolving [where n = 3 and t = "Some A" and s = fixture_state
      and s' = "fixture_state\<lparr>heap := [\<lparr>cls = A, props = Map.empty\<rparr>, \<lparr>cls = B, props = Map.empty\<rparr>]\<rparr>"
      and r = "Inl (Error ''[DI] Cannot resolve dependency: type is undefined. Possible circular import or missing dependency.'')"]
    run_fixture_A e
  have r2: "resolving (fixture_state\<lparr>heap := [\<lparr>cls = A, props = Map.empty\<rparr>, \<lparr>cls = B, props = Map.empty\<rparr>]\<rparr>) = {}"
    by simp
  from get_restores_resolving [of 1 "Some Boom" boom_state "Inl (Error ''boom'')" boom_state] boom
  have r3: "resolving boom_state = resolving boom_state" by simp
  from run_TestB e r1 r2 run_fixture_A boom show ?thesis by simp
qed

text \<open>
  C8, as the specification states it, fails in its last part: a constructor may return
  an object that exists, and then the \<open>get\<close> after the \<open>reset\<close> returns the reference that
  the \<open>get\<close> before it returned. The store and its references are as the amended claim
  asks; only the constructor of the class does not make a new object.
\<close>

theorem reset_same_instance_counterexample:
  "allocated single_state \<and> store_kept single_state
   \<and> get 1 (Some Single) single_state = Some (Inr 0, single_resolved)
   \<and> get 1 (Some Single) (reset single_resolved) = Some (Inr 0, single_resolved)"
proof -
  have "store_kept single_state"
    unfolding store_kept_def
  proof (intro allI impI)
    fix c h r h'
    assume "construct single_state c h = Some (r, h')"
    then show "length h \<le> length h' \<and> (\<forall>a. r = Inr a \<longrightarrow> a < length h')"
      by (cases "c = Single"; cases "h = []")
        (auto simp: single_state_eq plain_def single_constructor_def)
  qed
  moreover have "allocated single_state"
    by (simp add: allocated_def single_state_eq)
  moreover have "get 1 (Some Single) single_state = Some (Inr 0, single_resolved)"
    by (simp add: single_resolved_def single_state_eq new_def single_constructor_def cache_def)
  moreover have "get 1 (Some Single) (reset single_resolved) = Some (Inr 0, single_resolved)"
    by (simp add: single_resolved_def single_state_eq reset_def new_def single_constructor_def
        cache_def)
  ultimately show ?thesis by simp
qed

text \<open>
  C8, amended. \<open>reset\<close> unsets the instance of every registered type and changes nothing
  else: the registered types, the injection map, the resolving set and the store of
  objects stay. When every cached reference is an object of the store, no constructor
  removes objects or returns a reference outside the store, and the constructor of the
  type returns an object that did not exist before, a \<open>get\<close> after a \<open>reset\<close> returns a
  reference that differs from the one returned before it.
\<close>

theorem reset_frame:
  "map fst (registry (reset s)) = map fst (registry s)
   \<and> injections (reset s) = injections s \<and> resolving (reset s) = resolving s
   \<and> heap (reset s) = heap s
   \<and> instance_of (reset s) u = None
   \<and> (allocated s \<longrightarrow> store_kept s \<longrightarrow> fresh t s \<longrightarrow>
        get n (Some t) s = Some (Inr a, s1) \<longrightarrow>
        get m (Some t) (reset s1) = Some (Inr b, s2) \<longrightarrow> b \<noteq> a)"
proof (intro conjI impI)
  show "map fst (registry (reset s)) = map fst (registry s)"
    by (simp add: reset_def case_prod_unfold comp_def)
  show "injections (reset s) = injections s" "resolving (reset s) = resolving s"
    "heap (reset s) = heap s"
    by (simp_all add: reset_def)
  show "instance_of (reset s) u = None" by (rule instance_of_reset)
next
  assume al: "allocated s" and sk: "store_kept s" and fr: "fresh t s"
    and g1: "get n (Some t) s = Some (Inr a, s1)"
    and g2: "get m (Some t) (reset s1) = Some (Inr b, s2)"
  from allocated_all(1)[OF g1 sk] al have "allocated s1" by simp
  moreover from g1 have "instance_of s1 t = Some a" by (rule get_returns_cached)
  ultimately have "a < length (heap s1)" by (rule allocated_instance)
  moreover from get_constructed[OF g2 instance_of_reset] obtain h where
    "construct (reset s1) t (heap (reset s1)) = Some (Inr b, h)" ..
  with steady_all(1)[OF g1] have "construct s t (heap s1) = Some (Inr b, h)"
    by (simp add: reset_def steady_def)
  with fr have "length (heap s1) \<le> b" unfolding fresh_def by blast
  ultimately show "b \<noteq> a" by simp
qed

theorem reset_frame_witness:
  "allocated test_state \<and> store_kept test_state \<and> fresh TestB test_state
   \<and> get 2 (Some TestB) test_state = Some (Inr 0, resolved_state)
   \<and> (\<exists>s2. get 2 (Some TestB) (reset resolved_state) = Some (Inr 2, s2))
   \<and> (2::nat) \<noteq> 0"
proof -
  have al: "allocated test_state" by (simp add: allocated_def test_state_eq)
  have sk: "store_kept test_state"
    by (auto simp: store_kept_def test_state_eq plain_def)
  have fr: "fresh TestB test_state"
    by (auto simp: fresh_def test_state_eq plain_def)
  obtain s2 where run2: "get 2 (Some TestB) (reset resolved_state) = Some (Inr 2, s2)"
    by (simp add: resolved_state_def test_state_eq reset_def run_simps)
  from reset_frame [where s = test_state and t = TestB and n = 2 and a = 0
      and ?s1.0 = resolved_state and m = 2 and b = 2 and ?s2.0 = s2] al sk fr run_TestB run2
  show ?thesis by simp
qed




text \<open>
  C10. When a call \<open>get(u)\<close> made during the run of a call \<open>get(t)\<close>, at any depth, has
  returned an instance and the run of \<open>get(t)\<close> throws afterwards, the instance is still
  cached for \<open>u\<close> in the state the run ends in, and a later \<open>get(u)\<close> returns it and
  changes nothing.
\<close>

theorem completed_resolutions_kept:
  assumes "calls n t s m (Some u) sd" and "get m (Some u) sd = Some (Inr b, sd')"
    and "get n t s = Some (Inl e, s')"
  shows "instance_of s' u = Some b \<and> get (Suc k) (Some u) s' = Some (Inr b, s')"
proof -
  from assms(2) have "instance_of sd' u = Some b" by (rule get_returns_cached)
  from calls_keeps[OF assms(1,2,3) this] have i: "instance_of s' u = Some b" .
  then have "get (Suc k) (Some u) s' = Some (Inr b, s')"
    by (auto simp: instance_of_def split: option.splits)
  with i show ?thesis by simp
qed

theorem completed_resolutions_kept_witness:
  "calls 2 (Some Consumer) partial_state 1 (Some Foo) partial_entered
   \<and> (\<exists>sd'. get 1 (Some Foo) partial_entered = Some (Inr 1, sd'))
   \<and> get 2 (Some Consumer) partial_state =
       Some (Inl (Error ''[DI] Bar is not registered. Use @Injectable''), partial_failed)
   \<and> instance_of partial_failed Foo = Some 1
   \<and> instance_of partial_failed Consumer = None
   \<and> get 1 (Some Foo) partial_failed = Some (Inr 1, partial_failed)"
proof -
  have c0: "calls 1 (Some Foo) partial_entered 1 (Some Foo) partial_entered" by (rule calls.self)
  have a: "map_of (registry partial_state) Consumer \<noteq> None"
    "instance_of partial_state Consumer = None" "Consumer \<notin> resolving partial_state"
    "new Consumer (partial_state\<lparr>resolving := insert Consumer (resolving partial_state)\<rparr>)
       = Some (Inr 0, partial_entered)"
    "all_records (Suc 1) partial_state Consumer
       = [] @ \<lparr>key = Str ''foo'', dependency = Some Foo\<rparr> # [\<lparr>key = Str ''bar'', dependency = Some Bar\<rparr>]"
    "inject 1 0 [] partial_entered = Some (Inr (), partial_entered)"
    by (auto simp: partial_state_eq partial_entered_def instance_of_def new_def plain_def
        all_records_def direct_def class_defs)
  have d: "dependency \<lparr>key = Str ''foo'', dependency = Some Foo\<rparr> = Some Foo" by simp
  from calls.nested [OF a] c0 d
  have "calls (Suc 1) (Some Consumer) partial_state 1 (Some Foo) partial_entered" by simp
  then have c: "calls 2 (Some Consumer) partial_state 1 (Some Foo) partial_entered"
    by (simp add: numeral_2_eq_2)
  obtain sd' where g: "get 1 (Some Foo) partial_entered = Some (Inr 1, sd')"
    by (simp add: partial_entered_def partial_state_eq run_simps)
  have un: "instance_of partial_failed Consumer = None"
    by (simp add: partial_failed_def partial_state_eq instance_of_def class_defs)
  from completed_resolutions_kept [OF c g run_partial, of 0] c g run_partial un
  show ?thesis by auto
qed

end
